theory Spec2Isabelle
  imports Main
begin

section \<open>Objects and their circular buffer (server-obj.c)\<close>

text \<open>
  An \<open>obj_t\<close> is addressed by a pointer; pointers are natural numbers and \<open>NULL\<close> is
  \<open>None\<close>.  The two buffer pointers \<open>bufInPtr\<close> and \<open>bufOutPtr\<close> are kept as offsets
  from \<open>buf\<close>, so \<open>&obj->buf[MAX_BUF_SIZE]\<close> is the offset \<open>MAX_BUF_SIZE\<close>.  The
  constant \<open>MAX_BUF_SIZE\<close> comes from server.h, which is not part of the sources at
  hand: every function that needs it takes it as its first argument \<open>M\<close>.
\<close>

type_synonym ptr = nat

datatype obj_type = CONSOLE | LOGFILE | SOCKET

datatype aux =
    Console_aux (dev: string) (log: "string option") (rst: "string option") (bps: int)
  | Logfile_aux
  | Socket_aux (gotIAC: bool) (timeLastRead: int)

record obj =
  name :: string
  fd :: int
  gotEOF :: bool
  buf :: "char list"
  bufInPtr :: nat
  bufOutPtr :: nat
  writer :: "ptr option"
  readers :: "ptr list"
  otype :: obj_type
  aux :: aux

text \<open>
  Everything the code does besides updating objects is recorded as an event: system
  calls, log messages, and the entry into the routines whose invocation the
  specification talks about.
\<close>

datatype event =
    SysClose int
  | SysWrite int "char list"
  | SysOpen string
  | LogMsg nat string
  | CloseObj ptr
  | OpenObj ptr
  | DestroyObj ptr nat nat int
  | DestroyClose ptr

text \<open>
  \<open>err_msg\<close> (errors.h) prints and terminates the process; a failed \<open>assert\<close> aborts.
  A dereference of \<open>NULL\<close> or of a freed object is a fault of its own.  \<open>OutOfFuel\<close>
  is the value of a run that has not returned within the given number of steps.
\<close>

datatype error =
    Fatal string
  | AssertFailed string
  | NullDeref
  | BadPtr ptr
  | BadRead
  | OutOfFuel

subsection \<open>Formatting\<close>

definition digit_char :: "nat \<Rightarrow> char" where
  "digit_char d = char_of (48 + d)"

fun show_nat :: "nat \<Rightarrow> string" where
  "show_nat n = (if n < 10 then [digit_char n] else show_nat (n div 10) @ [digit_char (n mod 10)])"

declare show_nat.simps [simp del]

definition show_int :: "int \<Rightarrow> string" where
  "show_int i = (if i < 0 then CHR ''-'' # show_nat (nat (- i)) else show_nat (nat i))"

subsection \<open>write_obj_data\<close>

text \<open>\<open>memcpy(buf + i, src, length src)\<close> on a buffer kept as a list.\<close>

definition memcpy_at :: "char list \<Rightarrow> nat \<Rightarrow> char list \<Rightarrow> char list" where
  "memcpy_at b i src = take i b @ src @ drop (i + length src) b"

text \<open>
  The source \<open>src\<close> is \<open>None\<close> for a null pointer and otherwise the bytes that can be
  read through it; \<open>len\<close> is the C \<open>int\<close>.  Reading more bytes than \<open>src\<close> holds is the
  fault \<open>BadRead\<close>.  The result is the returned count, the updated object and the
  events (the overwrite notice, if any).  The mutex calls are not modelled.
\<close>

definition write_obj_data ::
  "nat \<Rightarrow> obj \<Rightarrow> char list option \<Rightarrow> int \<Rightarrow> error + (int \<times> obj \<times> event list)" where
  "write_obj_data M ob src len0 =
    (case src of
       None \<Rightarrow> Inr (0, ob, [])
     | Some bytes \<Rightarrow>
       if len0 \<le> 0 then Inr (0, ob, [])
       else
         let len = (if len0 \<ge> int M then nat (int M - 1) else nat len0) in
         if \<not> (bufInPtr ob < M \<and> bufOutPtr ob < M) then Inl (AssertFailed ''write_obj_data: entry'')
         else if length bytes < len then Inl BadRead
         else
           let n = len;
               avail = (if bufOutPtr ob = bufInPtr ob then M - 1
                        else if bufOutPtr ob > bufInPtr ob then bufOutPtr ob - bufInPtr ob
                        else (M - bufInPtr ob) + bufOutPtr ob);
               m = min len (M - bufInPtr ob);
               (b1, n1, src1, in1) =
                 (if m > 0 then
                    (let b' = memcpy_at (buf ob) (bufInPtr ob) (take m bytes);
                         in' = bufInPtr ob + m
                     in (b', n - m, drop m bytes, if in' = M then 0 else in'))
                  else (buf ob, n, bytes, bufInPtr ob));
               (b2, in2) =
                 (if n1 > 0 then (memcpy_at b1 in1 (take n1 src1), in1 + n1) else (b1, in1));
               (out2, evs) =
                 (if len > avail then
                    (if in2 + 1 = M then 0 else in2 + 1,
                     [LogMsg 10 (''['' @ name ob @ ''] overwrote '' @ show_nat (len - avail) @ '' bytes'')])
                  else (bufOutPtr ob, []))
           in if \<not> (in2 < M \<and> out2 < M) then Inl (AssertFailed ''write_obj_data: exit'')
              else Inr (int len, ob\<lparr>buf := b2, bufInPtr := in2, bufOutPtr := out2\<rparr>, evs))"

text \<open>
  What a consumer reads from the buffer, in FIFO order, when no further bytes arrive:
  the bytes from \<open>bufOutPtr\<close> up to \<open>bufInPtr\<close>, around the end of the array.
\<close>

definition contents :: "obj \<Rightarrow> char list" where
  "contents ob =
     (if bufOutPtr ob \<le> bufInPtr ob then take (bufInPtr ob - bufOutPtr ob) (drop (bufOutPtr ob) (buf ob))
      else drop (bufOutPtr ob) (buf ob) @ take (bufInPtr ob) (buf ob))"

definition occupancy :: "nat \<Rightarrow> obj \<Rightarrow> nat" where
  "occupancy M ob = (bufInPtr ob + M - bufOutPtr ob) mod M"

definition buf_inv :: "nat \<Rightarrow> obj \<Rightarrow> bool" where
  "buf_inv M ob \<longleftrightarrow> bufInPtr ob < M \<and> bufOutPtr ob < M \<and> length (buf ob) = M"

subsection \<open>write_to_obj: the critical section\<close>

text \<open>
  The result of one \<open>write\<close> system call: the number of bytes written, or \<open>-1\<close> with
  \<open>errno\<close> set.  The calls of one invocation of \<open>write_to_obj\<close> take their results
  from a list, one per call; a list that runs out while the code still retries stands
  for an invocation that has not returned.
\<close>

datatype errno = EINTR | EPIPE | EAGAIN | EWOULDBLOCK | EOTHER int

datatype write_result = Wrote nat | Failed errno

text \<open>The number of bytes offered to \<open>write\<close>: the run that does not wrap around.\<close>

definition write_avail :: "nat \<Rightarrow> obj \<Rightarrow> nat" where
  "write_avail M ob =
     (if bufInPtr ob \<ge> bufOutPtr ob then bufInPtr ob - bufOutPtr ob else M - bufOutPtr ob)"

text \<open>The label \<open>again\<close>: one \<open>write\<close> and the dispatch on its result.\<close>

fun write_again :: "nat \<Rightarrow> obj \<Rightarrow> nat \<Rightarrow> write_result list \<Rightarrow> error + (obj \<times> event list)" where
  "write_again M ob avail [] = Inl OutOfFuel"
| "write_again M ob avail (r # rs) =
     (let ev = SysWrite (fd ob) (take avail (drop (bufOutPtr ob) (buf ob))) in
      case r of
        Failed EINTR \<Rightarrow>
          (case write_again M ob avail rs of
             Inl err \<Rightarrow> Inl err
           | Inr (ob', evs) \<Rightarrow> Inr (ob', ev # evs))
      | Failed EPIPE \<Rightarrow> Inr (ob\<lparr>gotEOF := True, bufInPtr := 0, bufOutPtr := 0\<rparr>, [ev])
      | Failed EAGAIN \<Rightarrow> Inr (ob, [ev])
      | Failed EWOULDBLOCK \<Rightarrow> Inr (ob, [ev])
      | Failed (EOTHER k) \<Rightarrow> Inl (Fatal (''write error on fd='' @ show_int (fd ob) @ '' ('' @ name ob @ '')''))
      | Wrote n \<Rightarrow>
          if n > 0 then
            (let out' = bufOutPtr ob + n
             in Inr (ob\<lparr>bufOutPtr := (if out' = M then 0 else out')\<rparr>, [ev]))
          else Inr (ob, [ev]))"

text \<open>Lines 320 to 369 of server-obj.c: what happens while \<open>bufLock\<close> is held.\<close>

definition write_to_obj_locked ::
  "nat \<Rightarrow> write_result list \<Rightarrow> obj \<Rightarrow> error + (obj \<times> event list)" where
  "write_to_obj_locked M rs ob =
     (if \<not> (bufInPtr ob < M \<and> bufOutPtr ob < M) then Inl (AssertFailed ''write_to_obj: entry'')
      else
        let avail = write_avail M ob in
        case (if avail > 0 then write_again M ob avail rs else Inr (ob, [])) of
          Inl err \<Rightarrow> Inl err
        | Inr (ob', evs) \<Rightarrow>
            if \<not> bufOutPtr ob' < M then Inl (AssertFailed ''write_to_obj: exit'')
            else Inr (ob', evs))"

section \<open>The object graph\<close>

text \<open>
  Objects live in a store.  \<open>malloc\<close> hands out the address \<open>brk\<close> and never reuses one;
  \<open>free\<close> removes the object, so that a later access through a dangling pointer is the
  fault \<open>BadPtr\<close>.  The trace collects the events in the order they happen.
\<close>

record state =
  heap :: "ptr \<Rightarrow> obj option"
  brk :: ptr
  trace :: "event list"

text \<open>
  What the code takes from outside: the constant \<open>MAX_BUF_SIZE\<close>; the indeterminate
  value that the local variable \<open>reader\<close> of \<open>close_obj\<close> holds when it is read before
  any assignment; whether \<open>close\<close> fails on a descriptor; what \<open>open\<close> returns for a
  file name; the string of \<open>create_time_string\<close>, the value of \<open>time\<close>; the bytes found
  in freshly allocated memory; and what the fields \<open>aux.console.log\<close> and
  \<open>aux.console.rst\<close> of a freshly allocated object hold before anything is assigned to
  them.
\<close>

record env =
  MAX_BUF_SIZE :: nat
  uninit_reader :: "ptr option"
  close_fails :: "int \<Rightarrow> bool"
  open_result :: "string \<Rightarrow> int"
  now_string :: string
  time_now :: int
  heap_junk :: "nat \<Rightarrow> char"
  uninit_log :: "string option"
  uninit_rst :: "string option"

definition ebind :: "error + 'a \<Rightarrow> ('a \<Rightarrow> error + 'b) \<Rightarrow> error + 'b" where
  "ebind m f = (case m of Inl err \<Rightarrow> Inl err | Inr x \<Rightarrow> f x)"

definition deref :: "state \<Rightarrow> ptr \<Rightarrow> error + obj" where
  "deref s p = (case heap s p of None \<Rightarrow> Inl (BadPtr p) | Some ob \<Rightarrow> Inr ob)"

definition store :: "state \<Rightarrow> ptr \<Rightarrow> obj \<Rightarrow> state" where
  "store s p ob = s\<lparr>heap := (heap s)(p \<mapsto> ob)\<rparr>"

definition emit :: "state \<Rightarrow> event list \<Rightarrow> state" where
  "emit s evs = s\<lparr>trace := trace s @ evs\<rparr>"

definition free :: "state \<Rightarrow> ptr \<Rightarrow> state" where
  "free s p = s\<lparr>heap := (heap s)(p := None)\<rparr>"

subsection \<open>Constructors\<close>

definition create_obj :: "env \<Rightarrow> state \<Rightarrow> string \<Rightarrow> obj_type \<Rightarrow> aux \<Rightarrow> ptr \<times> state" where
  "create_obj e s nm ty ax =
     (let p = brk s;
          ob = \<lparr>name = nm, fd = - 1, gotEOF = False,
                buf = map (heap_junk e) [0 ..< MAX_BUF_SIZE e],
                bufInPtr = 0, bufOutPtr = 0, writer = None, readers = [],
                otype = ty, aux = ax\<rparr>
      in (p, s\<lparr>heap := (heap s)(p \<mapsto> ob), brk := Suc p\<rparr>))"

text \<open>
  \<open>create_console_obj\<close> assigns \<open>aux.console.log\<close> and \<open>aux.console.rst\<close> only for an
  argument that is neither \<open>NULL\<close> nor empty (lines 47 to 50); otherwise the field keeps
  what \<open>malloc\<close> left there.
\<close>

definition create_console_obj ::
  "env \<Rightarrow> state \<Rightarrow> string \<Rightarrow> string \<Rightarrow> string option \<Rightarrow> string option \<Rightarrow> int \<Rightarrow> error + (ptr \<times> state)" where
  "create_console_obj e s nm dv lg rs b =
     (if nm = [] then Inl (AssertFailed ''create_console_obj: name'')
      else if dv = [] then Inl (AssertFailed ''create_console_obj: dev'')
      else Inr (create_obj e s nm CONSOLE
                  (Console_aux dv (if lg = None \<or> lg = Some [] then uninit_log e else lg)
                                  (if rs = None \<or> rs = Some [] then uninit_rst e else rs) b)))"

definition create_logfile_obj :: "env \<Rightarrow> state \<Rightarrow> string \<Rightarrow> ptr \<times> state" where
  "create_logfile_obj e s nm = create_obj e s nm LOGFILE Logfile_aux"

definition create_socket_obj :: "env \<Rightarrow> state \<Rightarrow> string \<Rightarrow> string \<Rightarrow> int \<Rightarrow> error + (ptr \<times> state)" where
  "create_socket_obj e s user host sd =
     (if \<not> sd \<ge> 0 then Inl (AssertFailed ''create_socket_obj: sd'')
      else
        let (p, s1) = create_obj e s (user @ ''@'' @ host) SOCKET (Socket_aux False (time_now e))
        in case heap s1 p of
             None \<Rightarrow> Inl (BadPtr p)
           | Some ob \<Rightarrow>
               if time_now e = - 1 then Inl (Fatal ''time() failed -- What time is it?'')
               else Inr (p, store s1 p (ob\<lparr>fd := sd\<rparr>)))"

subsection \<open>destroy_obj and close_obj\<close>

definition destroy_obj :: "env \<Rightarrow> state \<Rightarrow> ptr \<Rightarrow> error + state" where
  "destroy_obj e s obj =
     ebind (deref s obj) (\<lambda>ob.
       if bufInPtr ob \<noteq> bufOutPtr ob then Inl (AssertFailed ''destroy_obj: bufInPtr == bufOutPtr'')
       else
         let s0 = emit s [DestroyObj obj (bufInPtr ob) (bufOutPtr ob) (fd ob)] in
         ebind (if fd ob \<ge> 0 then
                  (if close_fails e (fd ob) then Inl (Fatal ''close() failed'')
                   else Inr (emit (store s0 obj (ob\<lparr>fd := - 1\<rparr>)) [SysClose (fd ob), DestroyClose obj]))
                else Inr s0)
           (\<lambda>s1. Inr (free s1 obj)))"

text \<open>Lines 237 to 252: the last step of \<open>close_obj\<close>.\<close>

definition close_teardown :: "env \<Rightarrow> state \<Rightarrow> ptr \<Rightarrow> error + state" where
  "close_teardown e s obj =
     ebind (deref s obj) (\<lambda>ob.
       if bufInPtr ob \<noteq> bufOutPtr ob then Inr (store s obj (ob\<lparr>gotEOF := True\<rparr>))
       else
         ebind (if fd ob \<ge> 0 then
                  (if close_fails e (fd ob) then Inl (Fatal ''close() failed'')
                   else Inr (emit (store s obj (ob\<lparr>gotEOF := False, fd := - 1\<rparr>)) [SysClose (fd ob)]))
                else Inr (store s obj (ob\<lparr>gotEOF := False\<rparr>)))
           (\<lambda>s1. if otype ob = SOCKET then destroy_obj e s1 obj else Inr s1))"

text \<open>
  Modelled from the spec: the list library (list.h) is not among the sources.
  \<open>list_pop\<close> removes and returns the first item of a list, or returns \<open>NULL\<close> when the
  list is empty.
\<close>

definition list_pop :: "ptr list \<Rightarrow> ptr option \<times> ptr list" where
  "list_pop xs = (case xs of [] \<Rightarrow> (None, []) | x # r \<Rightarrow> (Some x, r))"

text \<open>
  \<open>close_obj\<close> calls itself, and nothing in the code bounds the depth: the first
  argument after the environment is the number of calls and loop iterations allowed.
  \<open>close_obj_readers\<close> is the \<open>while\<close> loop of lines 229 to 235, whose condition
  compares the local \<open>reader\<close> with the popped item (\<open>==\<close>) and assigns nothing; its
  last argument is the value \<open>reader\<close> has when the loop is reached.  The first loop
  leaves there \<open>obj\<close> when it found and deleted \<open>obj\<close> in the writer's list (\<open>list_delete\<close>
  after \<open>list_next\<close> removes the first occurrence), and \<open>NULL\<close> when \<open>list_next\<close> ran off
  the end; with no writer the variable was never assigned.
\<close>

fun close_obj :: "env \<Rightarrow> nat \<Rightarrow> state \<Rightarrow> ptr \<Rightarrow> error + state"
  and close_obj_readers :: "env \<Rightarrow> nat \<Rightarrow> state \<Rightarrow> ptr \<Rightarrow> ptr option \<Rightarrow> error + state"
where
  "close_obj e 0 s obj = Inl OutOfFuel"
| "close_obj e (Suc k) s0 obj =
     (let s = emit s0 [CloseObj obj] in
      ebind (deref s obj) (\<lambda>ob.
      ebind
        (case writer ob of
           None \<Rightarrow> Inr (s, uninit_reader e)
         | Some w \<Rightarrow>
             ebind (deref s w) (\<lambda>wo.
               if obj \<in> set (readers wo) then
                 (let s1 = store s w (wo\<lparr>readers := remove1 obj (readers wo)\<rparr>) in
                  ebind (if writer wo = None \<and> remove1 obj (readers wo) = []
                         then close_obj e k s1 w else Inr s1) (\<lambda>s2.
                  ebind (deref s2 obj) (\<lambda>ob2.
                    Inr (store s2 obj (ob2\<lparr>writer := None\<rparr>), Some obj))))
               else Inr (s, None)))
        (\<lambda>(s3, reader).
      ebind (close_obj_readers e k s3 obj reader) (\<lambda>s4.
        close_teardown e s4 obj))))"
| "close_obj_readers e 0 s obj reader = Inl OutOfFuel"
| "close_obj_readers e (Suc k) s obj reader =
     ebind (deref s obj) (\<lambda>ob.
       let (popped, rest) = list_pop (readers ob);
           s1 = store s obj (ob\<lparr>readers := rest\<rparr>)
       in if reader \<noteq> popped then Inr s1
          else
            (case reader of
               None \<Rightarrow> Inl NullDeref
             | Some r \<Rightarrow>
                 ebind (deref s1 r) (\<lambda>ro.
                 ebind (if writer ro = Some obj then
                          (let s2 = store s1 r (ro\<lparr>writer := None\<rparr>)
                           in if readers ro = [] then close_obj e k s2 r else Inr s2)
                        else Inr s1) (\<lambda>s3.
                   close_obj_readers e k s3 obj reader))))"

subsection \<open>write_obj_data and write_to_obj on the store\<close>

definition write_obj_data_st ::
  "env \<Rightarrow> state \<Rightarrow> ptr \<Rightarrow> char list option \<Rightarrow> int \<Rightarrow> error + (int \<times> state)" where
  "write_obj_data_st e s obj src len =
     (if src = None \<or> len \<le> 0 then Inr (0, s)
      else
        ebind (deref s obj) (\<lambda>ob.
        ebind (write_obj_data (MAX_BUF_SIZE e) ob src len) (\<lambda>(r, ob', evs).
          Inr (r, emit (store s obj ob') evs))))"

definition write_to_obj ::
  "env \<Rightarrow> nat \<Rightarrow> write_result list \<Rightarrow> state \<Rightarrow> ptr \<Rightarrow> error + state" where
  "write_to_obj e fuel rs s obj =
     ebind (deref s obj) (\<lambda>ob.
       if \<not> fd ob \<ge> 0 then Inl (AssertFailed ''write_to_obj: fd'')
       else
         ebind (write_to_obj_locked (MAX_BUF_SIZE e) rs ob) (\<lambda>(ob1, evs).
           let s1 = emit (store s obj ob1) evs
           in if gotEOF ob1 \<and> bufInPtr ob1 = bufOutPtr ob1 then close_obj e fuel s1 obj
              else Inr s1))"

subsection \<open>open_obj and create_obj_link\<close>

definition log_header :: "string \<Rightarrow> string \<Rightarrow> string" where
  "log_header cname now =
     ''* Console ['' @ cname @ ''] log started on '' @ now @ [CHR ''.'', CHR 0x0A, CHR 0x0A]"

definition open_obj :: "env \<Rightarrow> state \<Rightarrow> ptr \<Rightarrow> error + (int \<times> state)" where
  "open_obj e s0 obj =
     (let s = emit s0 [OpenObj obj] in
      ebind (deref s obj) (\<lambda>ob.
        if \<not> fd ob < 0 then Inl (AssertFailed ''open_obj: fd'')
        else if otype ob = CONSOLE then Inr (0, s)
        else if otype ob = LOGFILE then
          (case writer ob of
             None \<Rightarrow> Inl NullDeref
           | Some w \<Rightarrow>
               ebind (deref s w) (\<lambda>wo.
                 if otype wo \<noteq> CONSOLE then Inl (AssertFailed ''open_obj: writer'')
                 else
                   let newfd = open_result e (name ob);
                       s1 = emit (store s obj (ob\<lparr>fd := newfd\<rparr>)) [SysOpen (name ob)]
                   in if newfd < 0 then Inr (- 1, s1)
                      else
                        let str = log_header (name wo) (now_string e)
                        in ebind (write_obj_data_st e s1 obj (Some str) (int (length str)))
                             (\<lambda>(r, s2). Inr (0, s2))))
        else Inr (0, s)))"

definition steal_notice :: "string \<Rightarrow> string \<Rightarrow> string \<Rightarrow> string" where
  "steal_notice dname sname now =
     [CHR 0x0A] @ ''Console '' @ [CHR 0x27] @ dname @ [CHR 0x27] @ '' stolen by <'' @ sname
     @ ''> at '' @ now @ [CHR ''.'', CHR 0x0A]"

text \<open>
  \<open>create_obj_link\<close> in its three commented blocks: the steal (lines 276 to 289), the
  new edge (291 to 295) and the activation of both ends (297 to 302).  Between the
  test of \<open>dst->writer\<close> and the call of \<open>close_obj\<close> nothing writes that field, so the
  value read first stands for all three reads.
\<close>

definition steal_console :: "env \<Rightarrow> nat \<Rightarrow> state \<Rightarrow> ptr \<Rightarrow> ptr \<Rightarrow> error + state" where
  "steal_console e fuel s src dst =
     ebind (deref s dst) (\<lambda>d.
       case writer d of
         None \<Rightarrow> Inr s
       | Some w \<Rightarrow>
           ebind (deref s src) (\<lambda>so.
             if otype so \<noteq> SOCKET then Inl (AssertFailed ''create_obj_link: src'')
             else if otype d \<noteq> CONSOLE then Inl (AssertFailed ''create_obj_link: dst'')
             else
               ebind (deref s w) (\<lambda>wo.
                 if otype wo \<noteq> SOCKET then Inl (AssertFailed ''create_obj_link: writer'')
                 else
                   let str = steal_notice (name d) (name so) (now_string e) in
                   ebind (write_obj_data_st e s w (Some str) (int (length str))) (\<lambda>(r, s1).
                     close_obj e fuel s1 w))))"

definition add_link :: "state \<Rightarrow> ptr \<Rightarrow> ptr \<Rightarrow> error + state" where
  "add_link s src dst =
     ebind (deref s dst) (\<lambda>d.
       let s3 = store s dst (d\<lparr>writer := Some src\<rparr>) in
       ebind (deref s3 src) (\<lambda>so.
         Inr (store s3 src (so\<lparr>readers := readers so @ [dst]\<rparr>))))"

definition ensure_active :: "env \<Rightarrow> state \<Rightarrow> ptr \<Rightarrow> ptr \<Rightarrow> error + state" where
  "ensure_active e s src dst =
     ebind (deref s src) (\<lambda>so.
     ebind (if fd so < 0 then ebind (open_obj e s src) (\<lambda>(r, s'). Inr s') else Inr s) (\<lambda>s5.
     ebind (deref s5 dst) (\<lambda>d5.
       if fd d5 < 0 then ebind (open_obj e s5 dst) (\<lambda>(r, s'). Inr s') else Inr s5)))"

definition create_obj_link :: "env \<Rightarrow> nat \<Rightarrow> state \<Rightarrow> ptr \<Rightarrow> ptr \<Rightarrow> error + state" where
  "create_obj_link e fuel s src dst =
     ebind (steal_console e fuel s src dst) (\<lambda>s2.
     ebind (add_link s2 src dst) (\<lambda>s4.
       ensure_active e s4 src dst))"

subsection \<open>read_from_obj\<close>

text \<open>
  The result of one \<open>read\<close> system call: the bytes read (none at end of file), or \<open>-1\<close>
  with \<open>errno\<close> set.  \<open>read\<close> is asked for \<open>MAX_BUF_SIZE - 1\<close> bytes, so no more are taken
  from a result.  \<open>parse_buf_for_control\<close> does nothing yet and is left out.
\<close>

datatype read_result = Got "char list" | RFailed errno

fun write_readers :: "env \<Rightarrow> state \<Rightarrow> ptr list \<Rightarrow> char list \<Rightarrow> error + state" where
  "write_readers e s [] bytes = Inr s"
| "write_readers e s (reader # rest) bytes =
     ebind (deref s reader) (\<lambda>ro.
     ebind (if \<not> gotEOF ro
            then ebind (write_obj_data_st e s reader (Some bytes) (int (length bytes))) (\<lambda>(r, s'). Inr s')
            else Inr s) (\<lambda>s1.
       write_readers e s1 rest bytes))"

fun read_from_obj :: "env \<Rightarrow> nat \<Rightarrow> read_result list \<Rightarrow> state \<Rightarrow> ptr \<Rightarrow> error + state" where
  "read_from_obj e fuel [] s obj =
     ebind (deref s obj) (\<lambda>ob.
       if \<not> fd ob \<ge> 0 then Inl (AssertFailed ''read_from_obj: fd'') else Inl OutOfFuel)"
| "read_from_obj e fuel (r # rs) s obj =
     ebind (deref s obj) (\<lambda>ob.
       if \<not> fd ob \<ge> 0 then Inl (AssertFailed ''read_from_obj: fd'')
       else
         case r of
           RFailed EINTR \<Rightarrow> read_from_obj e fuel rs s obj
         | RFailed EAGAIN \<Rightarrow> Inr s
         | RFailed EWOULDBLOCK \<Rightarrow> Inr s
         | RFailed EPIPE \<Rightarrow>
             Inl (Fatal (''read error on fd='' @ show_int (fd ob) @ '' ('' @ name ob @ '')''))
         | RFailed (EOTHER k) \<Rightarrow>
             Inl (Fatal (''read error on fd='' @ show_int (fd ob) @ '' ('' @ name ob @ '')''))
         | Got bytes0 \<Rightarrow>
             (let bytes = take (MAX_BUF_SIZE e - 1) bytes0 in
              if bytes = [] then close_obj e fuel s obj
              else
                ebind (if otype ob = SOCKET then
                         (if time_now e = - 1 then Inl (Fatal ''time() failed -- What time is it?'')
                          else Inr (store s obj (ob\<lparr>aux := Socket_aux (gotIAC (aux ob)) (time_now e)\<rparr>)))
                       else Inr s) (\<lambda>s1.
                  write_readers e s1 (readers ob) bytes)))"

section \<open>The configuration file (server-conf.c)\<close>

subsection \<open>Tokens and the lexer\<close>

datatype server_conf_toks =
    SERVER_CONF_BPS
  | SERVER_CONF_CONSOLE
  | SERVER_CONF_DEV
  | SERVER_CONF_KEEPALIVE
  | SERVER_CONF_LOG
  | SERVER_CONF_LOGFILE
  | SERVER_CONF_LOOPBACK
  | SERVER_CONF_NAME
  | SERVER_CONF_OFF
  | SERVER_CONF_ON
  | SERVER_CONF_PIDFILE
  | SERVER_CONF_PORT
  | SERVER_CONF_SERVER
  | SERVER_CONF_TIMESTAMP

fun server_conf_strs :: "server_conf_toks \<Rightarrow> string" where
  "server_conf_strs SERVER_CONF_BPS = ''BPS''"
| "server_conf_strs SERVER_CONF_CONSOLE = ''CONSOLE''"
| "server_conf_strs SERVER_CONF_DEV = ''DEV''"
| "server_conf_strs SERVER_CONF_KEEPALIVE = ''KEEPALIVE''"
| "server_conf_strs SERVER_CONF_LOG = ''LOG''"
| "server_conf_strs SERVER_CONF_LOGFILE = ''LOGFILE''"
| "server_conf_strs SERVER_CONF_LOOPBACK = ''LOOPBACK''"
| "server_conf_strs SERVER_CONF_NAME = ''NAME''"
| "server_conf_strs SERVER_CONF_OFF = ''OFF''"
| "server_conf_strs SERVER_CONF_ON = ''ON''"
| "server_conf_strs SERVER_CONF_PIDFILE = ''PIDFILE''"
| "server_conf_strs SERVER_CONF_PORT = ''PORT''"
| "server_conf_strs SERVER_CONF_SERVER = ''SERVER''"
| "server_conf_strs SERVER_CONF_TIMESTAMP = ''TIMESTAMP''"

text \<open>
  Modelled from the spec: the lexer (lex.h) is not among the sources.  A token is one
  of end-of-file, end-of-line, the error token of an unmatched quote, an integer, a
  string, a single character of punctuation, or a keyword of the table the lexer was
  created with (\<open>LEX_TOK\<close> of its index, which \<open>LEX_UNTOK\<close> gives back).  The lexer is
  kept as the tokens it has yet to deliver, each with its raw text and the line number
  \<open>lex_line\<close> reports once it is read; \<open>lex_next\<close> delivers the next one and \<open>lex_prev\<close>,
  \<open>lex_text\<close> and \<open>lex_line\<close> describe the token delivered last.  At the end of the input
  \<open>lex_next\<close> returns \<open>LEX_EOF\<close>, however often it is called.
\<close>

datatype tok = LEX_EOF | LEX_EOL | LEX_ERR | LEX_INT | LEX_STR | LEX_CHAR char
  | LEX_TOK server_conf_toks

type_synonym lexeme = "tok \<times> string \<times> int"

record lexer =
  lex_rest :: "lexeme list"
  lex_prev :: tok
  lex_text :: string
  lex_line :: int

definition lex_create :: "lexeme list \<Rightarrow> lexer" where
  "lex_create ts = \<lparr>lex_rest = takeWhile (\<lambda>(t, x, n). t \<noteq> LEX_EOF) ts, lex_prev = LEX_EOF,
                     lex_text = [], lex_line = 1\<rparr>"

definition lex_next :: "lexer \<Rightarrow> tok \<times> lexer" where
  "lex_next l =
     (case lex_rest l of
        [] \<Rightarrow> (LEX_EOF, l\<lparr>lex_prev := LEX_EOF, lex_text := []\<rparr>)
      | (t, x, n) # r \<Rightarrow> (t, \<lparr>lex_rest = r, lex_prev = t, lex_text = x, lex_line = n\<rparr>))"

subsection \<open>The configuration and the parser's surroundings\<close>

text \<open>
  Modelled from the spec: the constructors that server-conf.c calls,
  \<open>create_console_obj(conf->objs, name, dev, bps)\<close>,
  \<open>create_logfile_obj(conf->objs, log, console, zero)\<close> and \<open>link_objs\<close>, are not the
  ones of server-obj.c and are not among the sources.  The collection is kept as the
  list of what was registered; a constructor rejects a name its variant already holds.
\<close>

datatype conf_obj =
    Console_obj string string int
  | Logfile_obj string bool
  | Link_objs string string

definition create_console_obj_conf ::
  "conf_obj list \<Rightarrow> string \<Rightarrow> string \<Rightarrow> int \<Rightarrow> conf_obj list option" where
  "create_console_obj_conf os cname cdev baud =
     (if list_ex (\<lambda>x. case x of Console_obj n d b \<Rightarrow> n = cname | _ \<Rightarrow> False) os then None
      else Some (os @ [Console_obj cname cdev baud]))"

definition create_logfile_obj_conf ::
  "conf_obj list \<Rightarrow> string \<Rightarrow> bool \<Rightarrow> conf_obj list option" where
  "create_logfile_obj_conf os lname zero =
     (if list_ex (\<lambda>x. case x of Logfile_obj n z \<Rightarrow> n = lname | _ \<Rightarrow> False) os then None
      else Some (os @ [Logfile_obj lname zero]))"

definition link_objs :: "conf_obj list \<Rightarrow> string \<Rightarrow> string \<Rightarrow> conf_obj list" where
  "link_objs os cname lname = os @ [Link_objs cname lname]"

record server_conf =
  filename :: string
  conf_fd :: int
  port :: int
  logname :: "string option"
  ld :: int
  objs :: "conf_obj list"
  enableKeepAlive :: bool
  enableZeroLogs :: bool
  enableLoopBack :: bool
  enableVerbose :: bool

text \<open>
  \<open>create_server_conf\<close>, with the file name \<open>DEFAULT_SERVER_CONF\<close> of server.h as its
  argument.  The port starts at zero, which stands for a port not yet chosen.
\<close>

definition create_server_conf :: "string \<Rightarrow> server_conf" where
  "create_server_conf dflt =
     \<lparr>filename = dflt, conf_fd = - 1, port = 0, logname = None, ld = - 1, objs = [],
      enableKeepAlive = True, enableZeroLogs = False, enableLoopBack = False,
      enableVerbose = False\<rparr>"

text \<open>
  What the parser works on: the lexer \<open>l\<close>, the configuration, and the lines written
  so far by \<open>printf\<close> (standard output), by \<open>fprintf(stderr, ...)\<close> and by \<open>log_msg\<close>.
  \<open>port_sets\<close> is not a variable of the program: it records, in order, the values that
  the assignment \<open>conf->port = n\<close> of \<open>parse_server_directive\<close> has stored.
\<close>

record pstate =
  lx :: lexer
  conf :: server_conf
  stdout :: "string list"
  stderr :: "string list"
  logged :: "string list"
  port_sets :: "int list"

text \<open>
  The constants of server.h, which is not among the sources, the library function
  \<open>atoi\<close>, and what the system calls on the configuration file return: the descriptor
  of \<open>open\<close>, the pid of \<open>is_write_lock_blocked\<close>, the result of \<open>get_read_lock\<close>, the size
  found by \<open>fstat\<close> (\<open>None\<close> when it fails), whether \<open>malloc\<close> and \<open>lex_create\<close> fail, the
  count and the bytes of \<open>read_n\<close>, and the tokens the lexer finds in a buffer.
\<close>

record conf_env =
  MAX_LINE :: nat
  DEFAULT_CONMAN_PORT :: int
  DEFAULT_CONSOLE_BAUD :: int
  atoi :: "string \<Rightarrow> int"
  sys_open :: "string \<Rightarrow> int"
  is_write_lock_blocked :: "int \<Rightarrow> int"
  get_read_lock :: "int \<Rightarrow> int"
  fstat_size :: "int \<Rightarrow> int option"
  malloc_fails :: "int \<Rightarrow> bool"
  read_n :: "int \<Rightarrow> int \<Rightarrow> int \<times> string"
  lex_create_fails :: bool
  lex_tokens :: "string \<Rightarrow> lexeme list"

text \<open>\<open>snprintf\<close> and \<open>strlcpy\<close> into an array of \<open>n\<close> characters keep \<open>n - 1\<close> of them.\<close>

definition snprintf :: "nat \<Rightarrow> string \<Rightarrow> string" where
  "snprintf n s = take (n - 1) s"

definition strlcpy :: "nat \<Rightarrow> string \<Rightarrow> string" where
  "strlcpy n s = take (n - 1) s"

subsection \<open>The messages\<close>

definition expected_eq :: "server_conf_toks \<Rightarrow> string" where
  "expected_eq k = ''expected '' @ [CHR 0x27] @ ''='' @ [CHR 0x27] @ '' after '' @ server_conf_strs k
                   @ '' keyword''"

definition expected_string :: "server_conf_toks \<Rightarrow> string" where
  "expected_string k = ''expected STRING for '' @ server_conf_strs k @ '' value''"

definition expected_integer :: "server_conf_toks \<Rightarrow> string" where
  "expected_integer k = ''expected INTEGER for '' @ server_conf_strs k @ '' value''"

definition expected_on_off :: "server_conf_toks \<Rightarrow> string" where
  "expected_on_off k = ''expected ON or OFF for '' @ server_conf_strs k @ '' value''"

definition invalid_value :: "server_conf_toks \<Rightarrow> int \<Rightarrow> string" where
  "invalid_value k n = ''invalid '' @ server_conf_strs k @ '' value '' @ show_int n"

definition not_implemented :: "server_conf_toks \<Rightarrow> string" where
  "not_implemented k = server_conf_strs k @ '' keyword not yet implemented''"

definition unrecognized_token :: "string \<Rightarrow> string" where
  "unrecognized_token x = ''unrecognized token '' @ [CHR 0x27] @ x @ [CHR 0x27]"

definition incomplete_directive :: "string \<Rightarrow> string" where
  "incomplete_directive d = ''incomplete '' @ d @ '' directive''"

text \<open>The format \<open>"ERROR: %s:%d: %s.\n"\<close>.\<close>

definition error_line :: "string \<Rightarrow> int \<Rightarrow> string \<Rightarrow> string" where
  "error_line file n msg = ''ERROR: '' @ file @ '':'' @ show_int n @ '': '' @ msg @ [CHR ''.'', CHR 0x0A]"

subsection \<open>The loops that skip to the end of the line\<close>

text \<open>
  \<open>while (lex_prev(l) != LEX_EOL && lex_prev(l) != LEX_EOF) lex_next(l);\<close> at the end of
  both directive parsers.
\<close>

function resync :: "lexer \<Rightarrow> lexer" where
  "resync l = (if lex_prev l \<noteq> LEX_EOL \<and> lex_prev l \<noteq> LEX_EOF then resync (snd (lex_next l)) else l)"
  by pat_completeness auto

termination
  by (relation "measure (\<lambda>l. length (lex_rest l)
                  + (if lex_prev l = LEX_EOL \<or> lex_prev l = LEX_EOF then 0 else 1))")
     (auto simp: lex_next_def split: list.splits)

declare resync.simps [simp del]

text \<open>
  \<open>while (tok != LEX_EOL && tok != LEX_EOF) tok = lex_next(l);\<close> in the \<open>default\<close> branch
  of \<open>process_server_conf_file\<close>.
\<close>

function skip_line :: "tok \<Rightarrow> lexer \<Rightarrow> tok \<times> lexer" where
  "skip_line t l = (if t \<noteq> LEX_EOL \<and> t \<noteq> LEX_EOF
                    then (case lex_next l of (t', l') \<Rightarrow> skip_line t' l') else (t, l))"
  by pat_completeness auto

termination
  by (relation "measure (\<lambda>(t, l). length (lex_rest l)
                  + (if t = LEX_EOL \<or> t = LEX_EOF then 0 else 1))")
     (auto simp: lex_next_def split: list.splits)

declare skip_line.simps [simp del]

text \<open>
  \<open>server_conf_strs[LEX_UNTOK(lex_prev(l))]\<close>: the index is inside the table only when
  the last token is a keyword.
\<close>

definition directive_of :: "lexer \<Rightarrow> error + string" where
  "directive_of l = (case lex_prev l of LEX_TOK k \<Rightarrow> Inr (server_conf_strs k) | _ \<Rightarrow> Inl BadRead)"

subsection \<open>parse_server_directive\<close>

text \<open>
  The branches of the \<open>switch\<close>, each after \<open>tok = lex_next(l)\<close> has delivered its keyword.
  A branch returns the contents of \<open>err\<close>, which is empty whenever the loop body is
  entered, and the state it leaves.
\<close>

definition server_on_off ::
  "conf_env \<Rightarrow> server_conf_toks \<Rightarrow> (bool \<Rightarrow> server_conf \<Rightarrow> server_conf) \<Rightarrow> pstate \<Rightarrow> string \<times> pstate" where
  "server_on_off e k set_flag p =
     (let (t1, l1) = lex_next (lx p) in
      if t1 \<noteq> LEX_CHAR CHR ''='' then (snprintf (MAX_LINE e) (expected_eq k), p\<lparr>lx := l1\<rparr>)
      else
        let (t2, l2) = lex_next l1 in
        if t2 = LEX_TOK SERVER_CONF_ON then ([], p\<lparr>lx := l2, conf := set_flag True (conf p)\<rparr>)
        else if lex_prev l2 = LEX_TOK SERVER_CONF_OFF then ([], p\<lparr>lx := l2, conf := set_flag False (conf p)\<rparr>)
        else (snprintf (MAX_LINE e) (expected_on_off k), p\<lparr>lx := l2\<rparr>))"

definition server_reserved :: "conf_env \<Rightarrow> server_conf_toks \<Rightarrow> pstate \<Rightarrow> string \<times> pstate" where
  "server_reserved e k p =
     (let (t1, l1) = lex_next (lx p);
          err1 = (if t1 \<noteq> LEX_CHAR CHR ''='' then snprintf (MAX_LINE e) (expected_eq k) else []);
          err2 = snprintf (MAX_LINE e) (not_implemented k)
      in (err2, p\<lparr>lx := l1\<rparr>))"

definition server_port :: "conf_env \<Rightarrow> pstate \<Rightarrow> string \<times> pstate" where
  "server_port e p =
     (let (t1, l1) = lex_next (lx p) in
      if t1 \<noteq> LEX_CHAR CHR ''='' then (snprintf (MAX_LINE e) (expected_eq SERVER_CONF_PORT), p\<lparr>lx := l1\<rparr>)
      else
        let (t2, l2) = lex_next l1 in
        if t2 \<noteq> LEX_STR \<and> lex_prev l2 \<noteq> LEX_INT
        then (snprintf (MAX_LINE e) (expected_integer SERVER_CONF_PORT), p\<lparr>lx := l2\<rparr>)
        else
          let n = atoi e (lex_text l2) in
          if n \<le> 0 then (snprintf (MAX_LINE e) (invalid_value SERVER_CONF_PORT n), p\<lparr>lx := l2\<rparr>)
          else ([], p\<lparr>lx := l2, conf := (conf p)\<lparr>port := n\<rparr>, port_sets := port_sets p @ [n]\<rparr>))"

text \<open>One turn of the loop: \<open>(done, err, state)\<close>.\<close>

definition server_step :: "conf_env \<Rightarrow> pstate \<Rightarrow> bool \<times> string \<times> pstate" where
  "server_step e p0 =
     (let (t, l) = lex_next (lx p0); p = p0\<lparr>lx := l\<rparr> in
      if t = LEX_TOK SERVER_CONF_KEEPALIVE
        then (False, server_on_off e SERVER_CONF_KEEPALIVE (\<lambda>b c. c\<lparr>enableKeepAlive := b\<rparr>) p)
      else if t = LEX_TOK SERVER_CONF_LOGFILE then (False, server_reserved e SERVER_CONF_LOGFILE p)
      else if t = LEX_TOK SERVER_CONF_LOOPBACK
        then (False, server_on_off e SERVER_CONF_LOOPBACK (\<lambda>b c. c\<lparr>enableLoopBack := b\<rparr>) p)
      else if t = LEX_TOK SERVER_CONF_PIDFILE then (False, server_reserved e SERVER_CONF_PIDFILE p)
      else if t = LEX_TOK SERVER_CONF_PORT then (False, server_port e p)
      else if t = LEX_TOK SERVER_CONF_TIMESTAMP then (False, server_reserved e SERVER_CONF_TIMESTAMP p)
      else if t = LEX_EOF \<or> t = LEX_EOL then (True, [], p)
      else if t = LEX_ERR then (False, snprintf (MAX_LINE e) ''unmatched quote'', p)
      else (False, snprintf (MAX_LINE e) (unrecognized_token (lex_text l)), p))"

lemma lex_next_rest: "length (lex_rest (snd (lex_next l))) \<le> length (lex_rest l)"
  by (simp add: lex_next_def split: list.splits)

lemma lex_next_rest_less:
  "fst (lex_next l) \<noteq> LEX_EOF \<Longrightarrow> length (lex_rest (snd (lex_next l))) < length (lex_rest l)"
  by (simp add: lex_next_def split: list.splits)

lemma lex_next_two:
  obtains t1 l1 t2 l2 where "lex_next l = (t1, l1)" "lex_next l1 = (t2, l2)"
    "length (lex_rest l1) \<le> length (lex_rest l)" "length (lex_rest l2) \<le> length (lex_rest l)"
proof -
  obtain t1 l1 where n1: "lex_next l = (t1, l1)" by (cases "lex_next l")
  obtain t2 l2 where n2: "lex_next l1 = (t2, l2)" by (cases "lex_next l1")
  have a: "length (lex_rest l1) \<le> length (lex_rest l)" using lex_next_rest[of l] n1 by simp
  have b: "length (lex_rest l2) \<le> length (lex_rest l1)" using lex_next_rest[of l1] n2 by simp
  from that[OF n1 n2 a] a b show thesis by simp
qed

lemma server_on_off_rest:
  "length (lex_rest (lx (snd (server_on_off e k f p)))) \<le> length (lex_rest (lx p))"
proof -
  obtain t1 l1 t2 l2 where n: "lex_next (lx p) = (t1, l1)" "lex_next l1 = (t2, l2)"
    and le: "length (lex_rest l1) \<le> length (lex_rest (lx p))"
            "length (lex_rest l2) \<le> length (lex_rest (lx p))"
    by (rule lex_next_two)
  show ?thesis using le by (simp add: server_on_off_def n)
qed

lemma server_reserved_rest:
  "length (lex_rest (lx (snd (server_reserved e k p)))) \<le> length (lex_rest (lx p))"
proof -
  obtain t1 l1 t2 l2 where n: "lex_next (lx p) = (t1, l1)" "lex_next l1 = (t2, l2)"
    and le: "length (lex_rest l1) \<le> length (lex_rest (lx p))"
            "length (lex_rest l2) \<le> length (lex_rest (lx p))"
    by (rule lex_next_two)
  show ?thesis using le by (simp add: server_reserved_def n Let_def)
qed

lemma server_port_rest:
  "length (lex_rest (lx (snd (server_port e p)))) \<le> length (lex_rest (lx p))"
proof -
  obtain t1 l1 t2 l2 where n: "lex_next (lx p) = (t1, l1)" "lex_next l1 = (t2, l2)"
    and le: "length (lex_rest l1) \<le> length (lex_rest (lx p))"
            "length (lex_rest l2) \<le> length (lex_rest (lx p))"
    by (rule lex_next_two)
  show ?thesis using le by (simp add: server_port_def n Let_def)
qed

lemma server_step_rest:
  assumes "server_step e p = (d, err, p')"
  shows "length (lex_rest (lx p')) \<le> length (lex_rest (lx p))
         \<and> (\<not> d \<longrightarrow> length (lex_rest (lx p')) < length (lex_rest (lx p)))"
proof -
  obtain t l where n: "lex_next (lx p) = (t, l)" by (cases "lex_next (lx p)")
  have le: "length (lex_rest l) \<le> length (lex_rest (lx p))"
    using lex_next_rest[of "lx p"] n by simp
  have lt: "t \<noteq> LEX_EOF \<Longrightarrow> length (lex_rest l) < length (lex_rest (lx p))"
    using lex_next_rest_less[of "lx p"] n by simp
  have sub: "length (lex_rest (lx (snd (server_on_off e k f (p\<lparr>lx := l\<rparr>))))) \<le> length (lex_rest l)"
       "length (lex_rest (lx (snd (server_reserved e k (p\<lparr>lx := l\<rparr>))))) \<le> length (lex_rest l)"
       "length (lex_rest (lx (snd (server_port e (p\<lparr>lx := l\<rparr>))))) \<le> length (lex_rest l)" for k f
    using server_on_off_rest[of e k f "p\<lparr>lx := l\<rparr>"] server_reserved_rest[of e k "p\<lparr>lx := l\<rparr>"]
      server_port_rest[of e "p\<lparr>lx := l\<rparr>"] by simp_all
  have "length (lex_rest (lx (snd (snd (server_step e p))))) \<le> length (lex_rest (lx p))
        \<and> (\<not> fst (server_step e p)
             \<longrightarrow> length (lex_rest (lx (snd (snd (server_step e p))))) < length (lex_rest (lx p)))"
    unfolding server_step_def n Let_def prod.case
    using le lt order_trans[OF sub(1) le] order_trans[OF sub(2) le] order_trans[OF sub(3) le]
      le_less_trans[OF sub(1) lt] le_less_trans[OF sub(2) lt] le_less_trans[OF sub(3) lt]
    by simp
  with assms show ?thesis by simp
qed

lemma server_step_less:
  "(False, err, p') = server_step e p \<Longrightarrow> length (lex_rest (lx p')) < length (lex_rest (lx p))"
  using server_step_rest[of e p False err p'] by simp

function server_loop :: "conf_env \<Rightarrow> pstate \<Rightarrow> string \<times> pstate" where
  "server_loop e p =
     (case server_step e p of
        (done, err, p') \<Rightarrow> if \<not> done \<and> err = [] then server_loop e p' else (err, p'))"
  by pat_completeness auto

termination
  by (relation "measure (\<lambda>(e, p). length (lex_rest (lx p)))")
     (auto dest: server_step_less)

declare server_loop.simps [simp del]

definition parse_server_directive :: "conf_env \<Rightarrow> pstate \<Rightarrow> error + pstate" where
  "parse_server_directive e p =
     ebind (directive_of (lx p)) (\<lambda>directive.
       let (err, p1) = server_loop e p in
       if err \<noteq> [] then
         Inr (p1\<lparr>stderr := stderr p1 @ [error_line (filename (conf p1)) (lex_line (lx p1)) err],
                 lx := resync (lx p1)\<rparr>)
       else Inr p1)"

subsection \<open>parse_console_directive\<close>

text \<open>The locals \<open>name\<close>, \<open>dev\<close>, \<open>log\<close> and \<open>bps\<close>.\<close>

record locals =
  l_name :: string
  l_dev :: string
  l_log :: string
  l_bps :: int

definition console_name :: "conf_env \<Rightarrow> pstate \<Rightarrow> locals \<Rightarrow> string \<times> pstate \<times> locals" where
  "console_name e p v =
     (let (t1, l1) = lex_next (lx p) in
      if t1 \<noteq> LEX_CHAR CHR ''='' then (snprintf (MAX_LINE e) (expected_eq SERVER_CONF_NAME), p\<lparr>lx := l1\<rparr>, v)
      else
        let (t2, l2) = lex_next l1 in
        if t2 \<noteq> LEX_STR then (snprintf (MAX_LINE e) (expected_string SERVER_CONF_NAME), p\<lparr>lx := l2\<rparr>, v)
        else ([], p\<lparr>lx := l2\<rparr>, v\<lparr>l_name := strlcpy (MAX_LINE e) (lex_text l2)\<rparr>))"

text \<open>The branch of \<open>DEV\<close> copies the text of the last token whatever the tests found.\<close>

definition console_dev :: "conf_env \<Rightarrow> pstate \<Rightarrow> locals \<Rightarrow> string \<times> pstate \<times> locals" where
  "console_dev e p v =
     (let (t1, l1) = lex_next (lx p) in
      if t1 \<noteq> LEX_CHAR CHR ''=''
      then (snprintf (MAX_LINE e) (expected_eq SERVER_CONF_DEV), p\<lparr>lx := l1\<rparr>,
            v\<lparr>l_dev := strlcpy (MAX_LINE e) (lex_text l1)\<rparr>)
      else
        let (t2, l2) = lex_next l1 in
        if t2 \<noteq> LEX_STR
        then (snprintf (MAX_LINE e) (expected_string SERVER_CONF_DEV), p\<lparr>lx := l2\<rparr>,
              v\<lparr>l_dev := strlcpy (MAX_LINE e) (lex_text l2)\<rparr>)
        else ([], p\<lparr>lx := l2\<rparr>, v\<lparr>l_dev := strlcpy (MAX_LINE e) (lex_text l2)\<rparr>))"

definition console_log :: "conf_env \<Rightarrow> pstate \<Rightarrow> locals \<Rightarrow> string \<times> pstate \<times> locals" where
  "console_log e p v =
     (let (t1, l1) = lex_next (lx p) in
      if t1 \<noteq> LEX_CHAR CHR ''='' then (snprintf (MAX_LINE e) (expected_eq SERVER_CONF_LOG), p\<lparr>lx := l1\<rparr>, v)
      else
        let (t2, l2) = lex_next l1 in
        if t2 \<noteq> LEX_STR then (snprintf (MAX_LINE e) (expected_string SERVER_CONF_LOG), p\<lparr>lx := l2\<rparr>, v)
        else ([], p\<lparr>lx := l2\<rparr>, v\<lparr>l_log := strlcpy (MAX_LINE e) (lex_text l2)\<rparr>))"

definition console_bps :: "conf_env \<Rightarrow> pstate \<Rightarrow> locals \<Rightarrow> string \<times> pstate \<times> locals" where
  "console_bps e p v =
     (let (t1, l1) = lex_next (lx p) in
      if t1 \<noteq> LEX_CHAR CHR ''='' then (snprintf (MAX_LINE e) (expected_eq SERVER_CONF_BPS), p\<lparr>lx := l1\<rparr>, v)
      else
        let (t2, l2) = lex_next l1 in
        if t2 \<noteq> LEX_STR \<and> lex_prev l2 \<noteq> LEX_INT
        then (snprintf (MAX_LINE e) (expected_integer SERVER_CONF_BPS), p\<lparr>lx := l2\<rparr>, v)
        else
          let b = atoi e (lex_text l2) in
          if b \<le> 0 then (snprintf (MAX_LINE e) (invalid_value SERVER_CONF_BPS b), p\<lparr>lx := l2\<rparr>, v\<lparr>l_bps := b\<rparr>)
          else ([], p\<lparr>lx := l2\<rparr>, v\<lparr>l_bps := b\<rparr>))"

definition console_step :: "conf_env \<Rightarrow> pstate \<Rightarrow> locals \<Rightarrow> bool \<times> string \<times> pstate \<times> locals" where
  "console_step e p0 v =
     (let (t, l) = lex_next (lx p0); p = p0\<lparr>lx := l\<rparr> in
      if t = LEX_TOK SERVER_CONF_NAME then (False, console_name e p v)
      else if t = LEX_TOK SERVER_CONF_DEV then (False, console_dev e p v)
      else if t = LEX_TOK SERVER_CONF_LOG then (False, console_log e p v)
      else if t = LEX_TOK SERVER_CONF_BPS then (False, console_bps e p v)
      else if t = LEX_EOF \<or> t = LEX_EOL then (True, [], p, v)
      else if t = LEX_ERR then (False, snprintf (MAX_LINE e) ''unmatched quote'', p, v)
      else (False, snprintf (MAX_LINE e) (unrecognized_token (lex_text l)), p, v))"

lemma console_name_rest:
  "length (lex_rest (lx (fst (snd (console_name e p v))))) \<le> length (lex_rest (lx p))"
proof -
  obtain t1 l1 t2 l2 where n: "lex_next (lx p) = (t1, l1)" "lex_next l1 = (t2, l2)"
    and le: "length (lex_rest l1) \<le> length (lex_rest (lx p))"
            "length (lex_rest l2) \<le> length (lex_rest (lx p))"
    by (rule lex_next_two)
  show ?thesis using le by (simp add: console_name_def n)
qed

lemma console_dev_rest:
  "length (lex_rest (lx (fst (snd (console_dev e p v))))) \<le> length (lex_rest (lx p))"
proof -
  obtain t1 l1 t2 l2 where n: "lex_next (lx p) = (t1, l1)" "lex_next l1 = (t2, l2)"
    and le: "length (lex_rest l1) \<le> length (lex_rest (lx p))"
            "length (lex_rest l2) \<le> length (lex_rest (lx p))"
    by (rule lex_next_two)
  show ?thesis using le by (simp add: console_dev_def n)
qed

lemma console_log_rest:
  "length (lex_rest (lx (fst (snd (console_log e p v))))) \<le> length (lex_rest (lx p))"
proof -
  obtain t1 l1 t2 l2 where n: "lex_next (lx p) = (t1, l1)" "lex_next l1 = (t2, l2)"
    and le: "length (lex_rest l1) \<le> length (lex_rest (lx p))"
            "length (lex_rest l2) \<le> length (lex_rest (lx p))"
    by (rule lex_next_two)
  show ?thesis using le by (simp add: console_log_def n)
qed

lemma console_bps_rest:
  "length (lex_rest (lx (fst (snd (console_bps e p v))))) \<le> length (lex_rest (lx p))"
proof -
  obtain t1 l1 t2 l2 where n: "lex_next (lx p) = (t1, l1)" "lex_next l1 = (t2, l2)"
    and le: "length (lex_rest l1) \<le> length (lex_rest (lx p))"
            "length (lex_rest l2) \<le> length (lex_rest (lx p))"
    by (rule lex_next_two)
  show ?thesis using le by (simp add: console_bps_def n Let_def)
qed

lemma console_step_rest:
  assumes "console_step e p v = (d, err, p', v')"
  shows "length (lex_rest (lx p')) \<le> length (lex_rest (lx p))
         \<and> (\<not> d \<longrightarrow> length (lex_rest (lx p')) < length (lex_rest (lx p)))"
proof -
  obtain t l where n: "lex_next (lx p) = (t, l)" by (cases "lex_next (lx p)")
  have le: "length (lex_rest l) \<le> length (lex_rest (lx p))"
    using lex_next_rest[of "lx p"] n by simp
  have lt: "t \<noteq> LEX_EOF \<Longrightarrow> length (lex_rest l) < length (lex_rest (lx p))"
    using lex_next_rest_less[of "lx p"] n by simp
  have sub: "length (lex_rest (lx (fst (snd (console_name e (p\<lparr>lx := l\<rparr>) v))))) \<le> length (lex_rest l)"
       "length (lex_rest (lx (fst (snd (console_dev e (p\<lparr>lx := l\<rparr>) v))))) \<le> length (lex_rest l)"
       "length (lex_rest (lx (fst (snd (console_log e (p\<lparr>lx := l\<rparr>) v))))) \<le> length (lex_rest l)"
       "length (lex_rest (lx (fst (snd (console_bps e (p\<lparr>lx := l\<rparr>) v))))) \<le> length (lex_rest l)"
    using console_name_rest[of e "p\<lparr>lx := l\<rparr>" v] console_dev_rest[of e "p\<lparr>lx := l\<rparr>" v]
      console_log_rest[of e "p\<lparr>lx := l\<rparr>" v] console_bps_rest[of e "p\<lparr>lx := l\<rparr>" v] by simp_all
  have "length (lex_rest (lx (fst (snd (snd (console_step e p v)))))) \<le> length (lex_rest (lx p))
        \<and> (\<not> fst (console_step e p v)
             \<longrightarrow> length (lex_rest (lx (fst (snd (snd (console_step e p v)))))) < length (lex_rest (lx p)))"
    unfolding console_step_def n Let_def prod.case
    using le lt order_trans[OF sub(1) le] order_trans[OF sub(2) le] order_trans[OF sub(3) le]
      order_trans[OF sub(4) le]
      le_less_trans[OF sub(1) lt] le_less_trans[OF sub(2) lt] le_less_trans[OF sub(3) lt]
      le_less_trans[OF sub(4) lt]
    by simp
  with assms show ?thesis by simp
qed

lemma console_step_less:
  "(False, err, p', v') = console_step e p v
   \<Longrightarrow> length (lex_rest (lx p')) < length (lex_rest (lx p))"
  using console_step_rest[of e p v False err p' v'] by simp

function console_loop :: "conf_env \<Rightarrow> pstate \<Rightarrow> locals \<Rightarrow> string \<times> pstate \<times> locals" where
  "console_loop e p v =
     (case console_step e p v of
        (done, err, p', v') \<Rightarrow> if \<not> done \<and> err = [] then console_loop e p' v' else (err, p', v'))"
  by pat_completeness auto

termination
  by (relation "measure (\<lambda>(e, p, v). length (lex_rest (lx p)))")
     (auto dest: console_step_less)

declare console_loop.simps [simp del]

definition console_removed :: "string \<Rightarrow> string" where
  "console_removed cname = ''Console ['' @ cname @ ''] removed from the configuration.''"

definition console_not_logged :: "string \<Rightarrow> string \<Rightarrow> string" where
  "console_not_logged cname lname =
     ''Console ['' @ cname @ ''] cannot be logged to '' @ [CHR 0x22] @ lname @ [CHR 0x22] @ ''.''"

definition parse_console_directive :: "conf_env \<Rightarrow> pstate \<Rightarrow> error + pstate" where
  "parse_console_directive e p =
     ebind (directive_of (lx p)) (\<lambda>directive.
       let (err0, p1, v) = console_loop e p
              \<lparr>l_name = [], l_dev = [], l_log = [], l_bps = DEFAULT_CONSOLE_BAUD e\<rparr>;
           err = (if err0 = [] \<and> (l_name v = [] \<or> l_dev v = [])
                  then snprintf (MAX_LINE e) (incomplete_directive directive) else err0)
       in
       if err \<noteq> [] then
         Inr (p1\<lparr>stderr := stderr p1 @ [error_line (filename (conf p1)) (lex_line (lx p1)) err],
                 lx := resync (lx p1)\<rparr>)
       else
         (case create_console_obj_conf (objs (conf p1)) (l_name v) (l_dev v) (l_bps v) of
            None \<Rightarrow> Inr (p1\<lparr>logged := logged p1 @ [console_removed (l_name v)]\<rparr>)
          | Some os \<Rightarrow>
              if l_log v \<noteq> [] then
                (case create_logfile_obj_conf os (l_log v) (enableZeroLogs (conf p1)) of
                   None \<Rightarrow> Inr (p1\<lparr>conf := (conf p1)\<lparr>objs := os\<rparr>,
                                   logged := logged p1 @ [console_not_logged (l_name v) (l_log v)]\<rparr>)
                 | Some os' \<Rightarrow> Inr (p1\<lparr>conf := (conf p1)\<lparr>objs := link_objs os' (l_name v) (l_log v)\<rparr>\<rparr>))
              else Inr (p1\<lparr>conf := (conf p1)\<lparr>objs := os\<rparr>\<rparr>)))"

subsection \<open>process_server_conf_file\<close>

text \<open>The body of the \<open>switch\<close> in the main loop, for a token other than \<open>LEX_EOF\<close>.\<close>

definition conf_switch :: "conf_env \<Rightarrow> tok \<Rightarrow> pstate \<Rightarrow> error + pstate" where
  "conf_switch e t p =
     (if t = LEX_TOK SERVER_CONF_CONSOLE then parse_console_directive e p
      else if t = LEX_TOK SERVER_CONF_SERVER then parse_server_directive e p
      else if t = LEX_EOL then Inr p
      else if t = LEX_ERR then
        Inr (p\<lparr>stdout := stdout p @ [error_line (filename (conf p)) (lex_line (lx p)) ''unmatched quote'']\<rparr>)
      else
        Inr (p\<lparr>stdout := stdout p @ [error_line (filename (conf p)) (lex_line (lx p))
                                         (unrecognized_token (lex_text (lx p)))],
                lx := snd (skip_line t (lx p))\<rparr>))"

lemma resync_rest: "length (lex_rest (resync l)) \<le> length (lex_rest l)"
proof (induction l rule: resync.induct)
  case (1 l)
  show ?case
  proof (cases "lex_prev l \<noteq> LEX_EOL \<and> lex_prev l \<noteq> LEX_EOF")
    case True
    then have "resync l = resync (snd (lex_next l))" by (subst resync.simps) simp
    with 1[OF True] lex_next_rest[of l] show ?thesis by simp
  next
    case False
    then have "resync l = l" by (subst resync.simps) auto
    then show ?thesis by simp
  qed
qed

lemma skip_line_rest: "length (lex_rest (snd (skip_line t l))) \<le> length (lex_rest l)"
proof (induction t l rule: skip_line.induct)
  case (1 t l)
  show ?case
  proof (cases "t \<noteq> LEX_EOL \<and> t \<noteq> LEX_EOF")
    case True
    obtain t' l' where n: "lex_next l = (t', l')" by (cases "lex_next l")
    from True n have "skip_line t l = skip_line t' l'" by (subst skip_line.simps) simp
    with 1[OF True n[symmetric]] lex_next_rest[of l] n show ?thesis by simp
  next
    case False
    then have "skip_line t l = (t, l)" by (subst skip_line.simps) auto
    then show ?thesis by simp
  qed
qed

lemma server_loop_rest: "length (lex_rest (lx (snd (server_loop e p)))) \<le> length (lex_rest (lx p))"
proof (induction e p rule: server_loop.induct)
  case (1 e p)
  obtain d err p' where s: "server_step e p = (d, err, p')" by (cases "server_step e p")
  from server_step_rest[OF s] have le: "length (lex_rest (lx p')) \<le> length (lex_rest (lx p))" by simp
  show ?case
  proof (cases "\<not> d \<and> err = []")
    case True
    with s have "server_loop e p = server_loop e p'" by (subst server_loop.simps) simp
    with 1[OF s[symmetric] refl True] le show ?thesis by simp
  next
    case False
    with s have "server_loop e p = (err, p')" by (subst server_loop.simps) auto
    with le show ?thesis by simp
  qed
qed

lemma console_loop_rest:
  "length (lex_rest (lx (fst (snd (console_loop e p v))))) \<le> length (lex_rest (lx p))"
proof (induction e p v rule: console_loop.induct)
  case (1 e p v)
  obtain d err p' v' where s: "console_step e p v = (d, err, p', v')"
    by (cases "console_step e p v") auto
  from console_step_rest[OF s] have le: "length (lex_rest (lx p')) \<le> length (lex_rest (lx p))" by simp
  show ?case
  proof (cases "\<not> d \<and> err = []")
    case True
    with s have "console_loop e p v = console_loop e p' v'" by (subst console_loop.simps) simp
    with 1[OF s[symmetric] refl refl True] le show ?thesis by simp
  next
    case False
    with s have "console_loop e p v = (err, p', v')" by (subst console_loop.simps) auto
    with le show ?thesis by simp
  qed
qed

lemma parse_server_directive_rest:
  assumes "parse_server_directive e p = Inr p'"
  shows "length (lex_rest (lx p')) \<le> length (lex_rest (lx p))"
proof -
  obtain err p1 where s: "server_loop e p = (err, p1)" by (cases "server_loop e p")
  from server_loop_rest[of e p] s have le: "length (lex_rest (lx p1)) \<le> length (lex_rest (lx p))" by simp
  from assms obtain dv where "directive_of (lx p) = Inr dv"
    by (cases "directive_of (lx p)") (simp_all add: parse_server_directive_def ebind_def)
  with assms s have "lx p' = lx p1 \<or> lx p' = resync (lx p1)"
    by (cases "err = []") (auto simp: parse_server_directive_def ebind_def)
  with le resync_rest[of "lx p1"] show ?thesis by auto
qed

lemma parse_console_directive_rest:
  assumes "parse_console_directive e p = Inr p'"
  shows "length (lex_rest (lx p')) \<le> length (lex_rest (lx p))"
proof -
  let ?v0 = "\<lparr>l_name = [], l_dev = [], l_log = [], l_bps = DEFAULT_CONSOLE_BAUD e\<rparr>"
  obtain err p1 v where s: "console_loop e p ?v0 = (err, p1, v)"
    by (cases "console_loop e p ?v0") auto
  from console_loop_rest[of e p ?v0] s have le: "length (lex_rest (lx p1)) \<le> length (lex_rest (lx p))"
    by simp
  from assms obtain dv where dv: "directive_of (lx p) = Inr dv"
    by (cases "directive_of (lx p)") (simp_all add: parse_console_directive_def ebind_def)
  from assms have "lx p' = lx p1 \<or> lx p' = resync (lx p1)"
    unfolding parse_console_directive_def dv ebind_def sum.case s prod.case Let_def
    by (auto split: if_splits option.splits)
  with le resync_rest[of "lx p1"] show ?thesis by auto
qed

lemma conf_switch_rest:
  assumes "conf_switch e t p = Inr p'"
  shows "length (lex_rest (lx p')) \<le> length (lex_rest (lx p))"
proof -
  consider (c) "t = LEX_TOK SERVER_CONF_CONSOLE" | (s) "t = LEX_TOK SERVER_CONF_SERVER"
    | (l) "t = LEX_EOL" | (r) "t = LEX_ERR"
    | (d) "t \<noteq> LEX_TOK SERVER_CONF_CONSOLE" "t \<noteq> LEX_TOK SERVER_CONF_SERVER" "t \<noteq> LEX_EOL" "t \<noteq> LEX_ERR"
    by blast
  then show ?thesis
  proof cases
    case c
    with assms have "parse_console_directive e p = Inr p'" by (simp add: conf_switch_def)
    then show ?thesis by (rule parse_console_directive_rest)
  next
    case s
    with assms have "parse_server_directive e p = Inr p'" by (simp add: conf_switch_def)
    then show ?thesis by (rule parse_server_directive_rest)
  next
    case l
    with assms have "p' = p" by (simp add: conf_switch_def)
    then show ?thesis by simp
  next
    case r
    with assms have "lx p' = lx p" by (auto simp: conf_switch_def)
    then show ?thesis by simp
  next
    case d
    with assms have "lx p' = snd (skip_line t (lx p))" by (auto simp: conf_switch_def)
    with skip_line_rest[of t "lx p"] show ?thesis by simp
  qed
qed

lemma conf_loop_less:
  assumes "(t, l) = lex_next (lx p)" and "t \<noteq> LEX_EOF"
    and "conf_switch e t (p\<lparr>lx := l\<rparr>) = Inr p'"
  shows "length (lex_rest (lx p')) < length (lex_rest (lx p))"
proof -
  from lex_next_rest_less[of "lx p"] assms(1)[symmetric] assms(2)
  have "length (lex_rest l) < length (lex_rest (lx p))" by simp
  moreover from conf_switch_rest[OF assms(3)] have "length (lex_rest (lx p')) \<le> length (lex_rest l)"
    by simp
  ultimately show ?thesis by simp
qed

function conf_loop :: "conf_env \<Rightarrow> pstate \<Rightarrow> error + pstate" where
  "conf_loop e p =
     (case lex_next (lx p) of
        (t, l) \<Rightarrow>
          if t = LEX_EOF then Inr (p\<lparr>lx := l\<rparr>)
          else (case conf_switch e t (p\<lparr>lx := l\<rparr>) of
                  Inl x \<Rightarrow> Inl x
                | Inr p' \<Rightarrow> conf_loop e p'))"
  by pat_completeness auto

termination
  by (relation "measure (\<lambda>(e, p). length (lex_rest (lx p)))")
     (auto dest: conf_loop_less)

declare conf_loop.simps [simp del]

text \<open>
  The whole routine.  The local \<open>port\<close> keeps the value the configuration had on entry;
  the failures of the calls on the file end the process through \<open>err_msg\<close>.
\<close>

definition process_server_conf_file :: "conf_env \<Rightarrow> pstate \<Rightarrow> error + pstate" where
  "process_server_conf_file e p0 =
     (let port0 = port (conf p0);
          d = sys_open e (filename (conf p0));
          p1 = p0\<lparr>conf := (conf p0)\<lparr>conf_fd := d\<rparr>\<rparr>
      in
      if d < 0 then Inl (Fatal ''Unable to open'')
      else if is_write_lock_blocked e d > 0 then Inl (Fatal ''Configuration in use'')
      else if get_read_lock e d < 0 then Inl (Fatal ''Unable to lock configuration'')
      else
        (case fstat_size e d of
           None \<Rightarrow> Inl (Fatal ''Unable to stat'')
         | Some len \<Rightarrow>
             if malloc_fails e (len + 1) then Inl (Fatal ''Unable to allocate memory for parsing'')
             else
               let (n, b) = read_n e d len in
               if n < 0 then Inl (Fatal ''Unable to read'')
               else if n \<noteq> len then Inl (AssertFailed ''process_server_conf_file: n == len'')
               else if lex_create_fails e then Inl (Fatal ''Unable to create lexer'')
               else
                 ebind (conf_loop e (p1\<lparr>lx := lex_create (lex_tokens e b)\<rparr>)) (\<lambda>p2.
                   Inr (if port0 > 0 then p2\<lparr>conf := (conf p2)\<lparr>port := port0\<rparr>\<rparr>
                        else if port (conf p2) \<le> 0
                          then p2\<lparr>conf := (conf p2)\<lparr>port := DEFAULT_CONMAN_PORT e\<rparr>\<rparr>
                        else p2))))"

section \<open>Properties of the model: vocabulary\<close>

subsection \<open>The result of write_obj_data in closed form\<close>

definition clamp_len :: "nat \<Rightarrow> int \<Rightarrow> nat" where
  "clamp_len M len = (if len \<ge> int M then M - 1 else nat len)"

text \<open>The free space as line 476 to 482 compute it.\<close>

definition code_avail :: "nat \<Rightarrow> obj \<Rightarrow> nat" where
  "code_avail M ob =
     (if bufOutPtr ob = bufInPtr ob then M - 1
      else if bufOutPtr ob > bufInPtr ob then bufOutPtr ob - bufInPtr ob
      else (M - bufInPtr ob) + bufOutPtr ob)"

definition wrap_copy :: "nat \<Rightarrow> char list \<Rightarrow> nat \<Rightarrow> char list \<Rightarrow> char list" where
  "wrap_copy M b i src =
     (if length src \<le> M - i then memcpy_at b i src
      else memcpy_at (memcpy_at b i (take (M - i) src)) 0 (drop (M - i) src))"

definition wrap_succ :: "nat \<Rightarrow> nat \<Rightarrow> nat" where
  "wrap_succ M i = (if i + 1 = M then 0 else i + 1)"

subsection \<open>What close_obj leaves alone\<close>

text \<open>
  An event is in order when it is not a call of \<open>destroy_obj\<close> on a non-empty buffer or
  on an open descriptor, and not a \<open>close\<close> issued by \<open>destroy_obj\<close>.
\<close>

fun destroy_ok :: "event \<Rightarrow> bool" where
  "destroy_ok (DestroyObj p i out f) = (i = out \<and> f < 0)"
| "destroy_ok (DestroyClose p) = False"
| "destroy_ok _ = True"

definition obj_kept :: "obj \<Rightarrow> obj \<Rightarrow> bool" where
  "obj_kept ob ob' \<longleftrightarrow>
     buf ob' = buf ob \<and> bufInPtr ob' = bufInPtr ob \<and> bufOutPtr ob' = bufOutPtr ob
     \<and> name ob' = name ob \<and> otype ob' = otype ob \<and> aux ob' = aux ob
     \<and> (fd ob' = fd ob \<or> fd ob' = - 1)"

definition close_rel :: "state \<Rightarrow> state \<Rightarrow> bool" where
  "close_rel s s' \<longleftrightarrow>
     (\<forall>p ob'. heap s' p = Some ob' \<longrightarrow> (\<exists>ob. heap s p = Some ob \<and> obj_kept ob ob'))
     \<and> brk s' = brk s
     \<and> (\<exists>evs. trace s' = trace s @ evs \<and> list_all destroy_ok evs)"

definition okres :: "('a \<Rightarrow> state) \<Rightarrow> state \<Rightarrow> error + 'a \<Rightarrow> bool" where
  "okres pr s m =
     (case m of Inl err \<Rightarrow> (\<forall>msg. err \<noteq> AssertFailed msg) | Inr x \<Rightarrow> close_rel s (pr x))"

subsection \<open>Reachable stores\<close>

definition heap_inv :: "nat \<Rightarrow> state \<Rightarrow> bool" where
  "heap_inv M s \<longleftrightarrow> (\<forall>p ob. heap s p = Some ob \<longrightarrow> buf_inv M ob)"

definition init_state :: state where
  "init_state = \<lparr>heap = (\<lambda>p. None), brk = 0, trace = []\<rparr>"

text \<open>
  The stores that the functions of server-obj.c produce from the empty store, whatever
  their arguments and whatever the system calls return.
\<close>

inductive reachable :: "env \<Rightarrow> state \<Rightarrow> bool" for e :: env where
  r_init: "reachable e init_state"
| r_console: "reachable e s \<Longrightarrow> create_console_obj e s nm dv lg rs b = Inr (p, s') \<Longrightarrow> reachable e s'"
| r_logfile: "reachable e s \<Longrightarrow> create_logfile_obj e s nm = (p, s') \<Longrightarrow> reachable e s'"
| r_socket: "reachable e s \<Longrightarrow> create_socket_obj e s user host sd = Inr (p, s') \<Longrightarrow> reachable e s'"
| r_write_data: "reachable e s \<Longrightarrow> write_obj_data_st e s obj src len = Inr (r, s') \<Longrightarrow> reachable e s'"
| r_write_to: "reachable e s \<Longrightarrow> write_to_obj e fuel ws s obj = Inr s' \<Longrightarrow> reachable e s'"
| r_read_from: "reachable e s \<Longrightarrow> read_from_obj e fuel rds s obj = Inr s' \<Longrightarrow> reachable e s'"
| r_close: "reachable e s \<Longrightarrow> close_obj e fuel s obj = Inr s' \<Longrightarrow> reachable e s'"
| r_destroy: "reachable e s \<Longrightarrow> destroy_obj e s obj = Inr s' \<Longrightarrow> reachable e s'"
| r_open: "reachable e s \<Longrightarrow> open_obj e s obj = Inr (r, s') \<Longrightarrow> reachable e s'"
| r_link: "reachable e s \<Longrightarrow> create_obj_link e fuel s src dst = Inr s' \<Longrightarrow> reachable e s'"

text \<open>
  \<open>write\<close> never reports more bytes than it was asked to write.
\<close>

definition posix_writes :: "nat \<Rightarrow> obj \<Rightarrow> write_result list \<Rightarrow> bool" where
  "posix_writes M ob rs =
     list_all (\<lambda>r. case r of Wrote n \<Rightarrow> n \<le> write_avail M ob | Failed en \<Rightarrow> True) rs"

definition keeps :: "nat \<Rightarrow> ('a \<Rightarrow> state) \<Rightarrow> error + 'a \<Rightarrow> bool" where
  "keeps M pr m \<longleftrightarrow> (\<forall>x. m = Inr x \<longrightarrow> heap_inv M (pr x))"

subsection \<open>The parser\<close>

text \<open>
  What a stretch of the parser does to the port: the values stored by \<open>conf->port = n\<close>
  are all positive, and the port is the last of them, or what it was if there is none.
\<close>

definition port_rel :: "pstate \<Rightarrow> pstate \<Rightarrow> bool" where
  "port_rel p p' \<longleftrightarrow>
     (\<exists>xs. port_sets p' = port_sets p @ xs \<and> list_all (\<lambda>n. 0 < n) xs
          \<and> port (conf p') = (if xs = [] then port (conf p) else last xs))"

definition only_lx :: "pstate \<Rightarrow> pstate \<Rightarrow> bool" where
  "only_lx p p' \<longleftrightarrow>
     conf p' = conf p \<and> stdout p' = stdout p \<and> stderr p' = stderr p \<and> logged p' = logged p
     \<and> port_sets p' = port_sets p"

text \<open>A stretch of the parser that writes nothing and keeps the name of the file.\<close>

definition quiet :: "pstate \<Rightarrow> pstate \<Rightarrow> bool" where
  "quiet p p' \<longleftrightarrow>
     stdout p' = stdout p \<and> stderr p' = stderr p \<and> logged p' = logged p
     \<and> filename (conf p') = filename (conf p)"


subsection \<open>The ports a file sets, read off its tokens\<close>

text \<open>
  This part follows the words of the specification, not the code.  A directive runs
  to the end of its line: \<open>after_eol\<close> is what follows the first end of line.
  The options of a \<open>SERVER\<close> directive are \<open>KEY=VALUE\<close>; \<open>spec_server_ports\<close> goes through them
  from the left and collects the positive values of \<open>PORT=<int>\<close> (\<open>KEEPALIVE\<close> and
  \<open>LOOPBACK\<close> take \<open>ON\<close> or \<open>OFF\<close>), up to the end of the line or to the first thing that
  is not such an option: an error ends the directive, and what the directive has set
  before the error stays.  The reserved keywords \<open>LOGFILE\<close>, \<open>PIDFILE\<close> and \<open>TIMESTAMP\<close> are
  reported as not yet implemented, by a line of the same form as an error, and end the
  directive in the same way.  The value of \<open>PORT\<close> is the number that \<open>atoi\<close> reads in the text
  of an integer token or of a string token, so that the port may also be written in
  quotes.  \<open>spec_file_ports\<close> goes through the file: a \<open>SERVER\<close> keyword where a
  directive may start opens a directive, whose ports are collected and whose line is
  left; an empty line is passed; every other line is left with no port set (a
  \<open>CONSOLE\<close> directive, or an error).  On one point the specification is silent and
  \<open>spec_file_ports\<close> is fixed so as to cover every list of tokens: after an unmatched quote
  met where a directive may start, the next token is again taken as the start of a
  directive.  Where an unmatched quote is the last token of its line this is the same
  as leaving the line, and \<open>spec_file_ports\<close> is \<open>spec_ports_by_lines\<close>, defined further down, which
  cuts the file into lines and reads each line by itself.
\<close>

definition after_eol :: "lexeme list \<Rightarrow> lexeme list" where
  "after_eol ts = drop 1 (dropWhile (\<lambda>(t, x, n). t \<noteq> LEX_EOL) ts)"

fun spec_server_ports :: "(string \<Rightarrow> int) \<Rightarrow> lexeme list \<Rightarrow> int list" where
  "spec_server_ports a ((k, kx, kn) # (q, qx, qn) # (v, x, n) # r) =
     (if (k = LEX_TOK SERVER_CONF_KEEPALIVE \<or> k = LEX_TOK SERVER_CONF_LOOPBACK)
         \<and> q = LEX_CHAR CHR ''='' \<and> (v = LEX_TOK SERVER_CONF_ON \<or> v = LEX_TOK SERVER_CONF_OFF)
      then spec_server_ports a r
      else if k = LEX_TOK SERVER_CONF_PORT \<and> q = LEX_CHAR CHR ''='' \<and> (v = LEX_STR \<or> v = LEX_INT)
              \<and> 0 < a x
      then a x # spec_server_ports a r
      else [])"
| "spec_server_ports a ts = []"

lemma length_after_eol: "length (after_eol ts) \<le> length ts"
  using length_dropWhile_le[of "\<lambda>(t, x, n). t \<noteq> LEX_EOL" ts] by (simp add: after_eol_def)

function spec_file_ports :: "(string \<Rightarrow> int) \<Rightarrow> lexeme list \<Rightarrow> int list" where
  "spec_file_ports a [] = []"
| "spec_file_ports a ((t, x, n) # r) =
     (if t = LEX_TOK SERVER_CONF_SERVER then spec_server_ports a r @ spec_file_ports a (after_eol r)
      else if t = LEX_EOL \<or> t = LEX_ERR then spec_file_ports a r
      else spec_file_ports a (after_eol r))"
  by pat_completeness auto

termination
  by (relation "measure (\<lambda>(a, ts). length ts)") (auto simp: le_imp_less_Suc length_after_eol)

declare spec_file_ports.simps [simp del]

text \<open>The tokens of the configuration file: what the lexer finds in the bytes read.\<close>

definition conf_tokens :: "conf_env \<Rightarrow> server_conf \<Rightarrow> lexeme list" where
  "conf_tokens e c =
     (let d = sys_open e (filename c) in
      case fstat_size e d of
        None \<Rightarrow> []
      | Some len \<Rightarrow> lex_rest (lex_create (lex_tokens e (snd (read_n e d len)))))"

text \<open>
  Inside the proofs: no token in the list is \<open>LEX_EOF\<close>, and what is left of the input
  once the line of the token read last is over.
\<close>

definition no_eof :: "lexeme list \<Rightarrow> bool" where
  "no_eof ts = list_all (\<lambda>(t, x, n). t \<noteq> LEX_EOF) ts"

definition to_eol :: "lexer \<Rightarrow> lexeme list" where
  "to_eol l = (if lex_prev l = LEX_EOL \<or> lex_prev l = LEX_EOF then lex_rest l else after_eol (lex_rest l))"

text \<open>A stretch of the parser that stores the values \<open>xs\<close>, in this order, in the port.\<close>

definition sets_ports :: "pstate \<Rightarrow> int list \<Rightarrow> pstate \<Rightarrow> bool" where
  "sets_ports p xs p' \<longleftrightarrow>
     port_sets p' = port_sets p @ xs \<and> port (conf p') = (if xs = [] then port (conf p) else last xs)"

text \<open>
  One turn of the loop of \<open>parse_server_directive\<close> that starts with the tokens \<open>ts\<close> still
  to be read: where it leaves the lexer, and what it stores, against \<open>spec_server_ports\<close>.
\<close>

definition opt_step :: "(string \<Rightarrow> int) \<Rightarrow> pstate \<Rightarrow> lexeme list \<Rightarrow> bool \<Rightarrow> string \<Rightarrow> pstate \<Rightarrow> bool" where
  "opt_step a p ts d err p' \<longleftrightarrow>
     to_eol (lx p') = after_eol ts \<and> no_eof (lex_rest (lx p'))
     \<and> (if \<not> d \<and> err = []
        then lex_prev (lx p') \<noteq> LEX_EOL \<and> lex_prev (lx p') \<noteq> LEX_EOF
             \<and> (\<exists>xs. sets_ports p xs p' \<and> spec_server_ports a ts = xs @ spec_server_ports a (lex_rest (lx p')))
        else sets_ports p [] p' \<and> spec_server_ports a ts = [])"

text \<open>
  The same reading line by line: the file is cut into its lines, and a line counts
  when it is a \<open>SERVER\<close> directive.  \<open>err_ends_line\<close> says of a list of tokens that an
  unmatched quote is always the last token of its line.
\<close>

function lines_of :: "lexeme list \<Rightarrow> lexeme list list" where
  "lines_of [] = []"
| "lines_of (a # r) =
     takeWhile (\<lambda>(t, x, n). t \<noteq> LEX_EOL) (a # r) # lines_of (after_eol (a # r))"
  by pat_completeness auto

termination
proof (relation "measure length")
  show "wf (measure length)" by simp
next
  fix a :: lexeme and r
  obtain t x n where a: "a = (t, x, n)" by (cases a)
  have "length (after_eol (a # r)) \<le> length r"
    using length_after_eol[of r] by (simp add: a after_eol_def)
  then show "(after_eol (a # r), a # r) \<in> measure length" by simp
qed

declare lines_of.simps [simp del]

definition spec_line_ports :: "(string \<Rightarrow> int) \<Rightarrow> lexeme list \<Rightarrow> int list" where
  "spec_line_ports a ln =
     (case ln of
        [] \<Rightarrow> []
      | (t, x, n) # opts \<Rightarrow> if t = LEX_TOK SERVER_CONF_SERVER then spec_server_ports a opts else [])"

definition spec_ports_by_lines :: "(string \<Rightarrow> int) \<Rightarrow> lexeme list \<Rightarrow> int list" where
  "spec_ports_by_lines a ts = concat (map (spec_line_ports a) (lines_of ts))"

fun err_ends_line :: "lexeme list \<Rightarrow> bool" where
  "err_ends_line ((t, x, n) # (t', x', n') # r) =
     ((t \<noteq> LEX_ERR \<or> t' = LEX_EOL) \<and> err_ends_line ((t', x', n') # r))"
| "err_ends_line ts = True"

section \<open>Concrete objects\<close>

text \<open>
  A socket object over a buffer of eight bytes (the size of the specification's
  overwrite scenario) that holds the three bytes \<open>ABC\<close>.
\<close>

definition sock3 :: obj where
  "sock3 = \<lparr>name = ''u@h'', fd = 5, gotEOF = False, buf = ''ABC.....'',
             bufInPtr = 3, bufOutPtr = 0, writer = None, readers = [],
             otype = SOCKET, aux = Socket_aux False 0\<rparr>"

text \<open>
  An environment with eight-byte buffers in which \<open>close\<close> succeeds and an unassigned
  \<open>reader\<close> holds a pointer to no object.
\<close>

definition ex_env :: env where
  "ex_env = \<lparr>MAX_BUF_SIZE = 8, uninit_reader = Some 99, close_fails = (\<lambda>d. False),
             open_result = (\<lambda>n. 7), now_string = ''now'', time_now = 1000,
             heap_junk = (\<lambda>i. CHR ''.''), uninit_log = None, uninit_rst = None\<rparr>"

text \<open>
  The console \<open>c1\<close> (at address 0) with its log file (1) and one client (2) that both
  reads from and writes to the console; all three descriptors are open and all
  buffers are empty.
\<close>

definition cons0 :: obj where
  "cons0 = \<lparr>name = ''c1'', fd = 3, gotEOF = False, buf = ''........'',
             bufInPtr = 0, bufOutPtr = 0, writer = Some 2, readers = [1, 2],
             otype = CONSOLE, aux = Console_aux ''/dev/ttyS0'' (Some ''c1.log'') None 9600\<rparr>"

definition logf1 :: obj where
  "logf1 = \<lparr>name = ''c1.log'', fd = 6, gotEOF = False, buf = ''........'',
             bufInPtr = 0, bufOutPtr = 0, writer = Some 0, readers = [],
             otype = LOGFILE, aux = Logfile_aux\<rparr>"

definition sock2 :: obj where
  "sock2 = \<lparr>name = ''u@h'', fd = 5, gotEOF = False, buf = ''........'',
             bufInPtr = 0, bufOutPtr = 0, writer = Some 0, readers = [0],
             otype = SOCKET, aux = Socket_aux False 0\<rparr>"

definition graph3 :: state where
  "graph3 = \<lparr>heap = [0 \<mapsto> cons0, 1 \<mapsto> logf1, 2 \<mapsto> sock2], brk = 3, trace = []\<rparr>"

text \<open>A socket as \<open>create_socket_obj\<close> makes it in \<open>ex_env\<close>, and the store holding it.\<close>

definition fresh_sock :: obj where
  "fresh_sock = \<lparr>name = ''u@h'', fd = 5, gotEOF = False, buf = ''........'',
                  bufInPtr = 0, bufOutPtr = 0, writer = None, readers = [],
                  otype = SOCKET, aux = Socket_aux False 1000\<rparr>"

definition one_sock :: state where
  "one_sock = \<lparr>heap = [0 \<mapsto> fresh_sock], brk = 1, trace = []\<rparr>"

definition one_sock_abc :: state where
  "one_sock_abc = emit (store one_sock 0 (fresh_sock\<lparr>buf := ''ABC.....'', bufInPtr := 3\<rparr>)) []"

text \<open>A store with the single object \<open>sock3\<close>, after \<open>close_obj\<close> has set its \<open>gotEOF\<close>.\<close>

definition draining :: state where
  "draining = \<lparr>heap = [1 \<mapsto> sock3\<lparr>gotEOF := True\<rparr>], brk = 2, trace = []\<rparr>"

text \<open>
  The same three objects with 64-byte buffers and, as \<open>create_console_obj\<close> leaves it, a
  console whose descriptor is not open, together with a second client \<open>v@h\<close> (at
  address 3) that is linked to nothing and holds no descriptor.
\<close>

definition env64 :: env where
  "env64 = ex_env\<lparr>MAX_BUF_SIZE := 64\<rparr>"

definition buf64 :: "char list" where
  "buf64 = replicate 64 (CHR ''.'')"

definition new_sock :: obj where
  "new_sock = \<lparr>name = ''v@h'', fd = - 1, gotEOF = False, buf = buf64,
                bufInPtr = 0, bufOutPtr = 0, writer = None, readers = [],
                otype = SOCKET, aux = Socket_aux False 0\<rparr>"

definition steal_state :: state where
  "steal_state = \<lparr>heap = [0 \<mapsto> cons0\<lparr>fd := - 1, buf := buf64\<rparr>, 1 \<mapsto> logf1\<lparr>buf := buf64\<rparr>,
                           2 \<mapsto> sock2\<lparr>buf := buf64\<rparr>, 3 \<mapsto> new_sock],
                   brk = 4, trace = []\<rparr>"

text \<open>
  The same store at a later moment: the client \<open>u@h\<close> (address 2) has 26 bytes waiting
  in its buffer, and the second client holds the descriptor 6 of its connection.
\<close>

definition steal_pending :: state where
  "steal_pending = \<lparr>heap = [0 \<mapsto> cons0\<lparr>fd := - 1, buf := buf64\<rparr>, 1 \<mapsto> logf1\<lparr>buf := buf64\<rparr>,
                             2 \<mapsto> sock2\<lparr>buf := buf64, bufInPtr := 26\<rparr>, 3 \<mapsto> new_sock\<lparr>fd := 6\<rparr>],
                     brk = 4, trace = []\<rparr>"

subsection \<open>Configuration files\<close>

text \<open>
  Three files and the system around them: \<open>conman.conf\<close> holds the line
  \<open>SERVER PORT=7777\<close>, \<open>stray.conf\<close> the line \<open>PORT=7777\<close> with no directive before the
  keyword, and \<open>empty.conf\<close> nothing.  All calls on them succeed, \<open>atoi\<close> is given on
  the one number that occurs, and \<open>parse_start\<close> is the state in which nothing has been
  written yet.
\<close>

definition port_file :: string where
  "port_file = ''SERVER PORT=7777'' @ [CHR 0x0A]"

definition port_tokens :: "lexeme list" where
  "port_tokens = [(LEX_TOK SERVER_CONF_SERVER, ''SERVER'', 1), (LEX_TOK SERVER_CONF_PORT, ''PORT'', 1),
                  (LEX_CHAR CHR ''='', ''='', 1), (LEX_INT, ''7777'', 1), (LEX_EOL, [CHR 0x0A], 1)]"

definition stray_file :: string where
  "stray_file = ''PORT=7777'' @ [CHR 0x0A]"

definition stray_tokens :: "lexeme list" where
  "stray_tokens = [(LEX_TOK SERVER_CONF_PORT, ''PORT'', 1), (LEX_CHAR CHR ''='', ''='', 1),
                   (LEX_INT, ''7777'', 1), (LEX_EOL, [CHR 0x0A], 1)]"

definition ex_conf_env :: conf_env where
  "ex_conf_env =
     \<lparr>MAX_LINE = 80, DEFAULT_CONMAN_PORT = 7890, DEFAULT_CONSOLE_BAUD = 9600,
      atoi = (\<lambda>s. if s = ''7777'' then 7777 else 0),
      sys_open = (\<lambda>f. if f = ''conman.conf'' then 4 else if f = ''stray.conf'' then 5
                       else if f = ''empty.conf'' then 6 else - 1),
      is_write_lock_blocked = (\<lambda>d. 0),
      get_read_lock = (\<lambda>d. 0),
      fstat_size = (\<lambda>d. if d = 4 then Some 17 else if d = 5 then Some 10
                         else if d = 6 then Some 0 else None),
      malloc_fails = (\<lambda>n. False),
      read_n = (\<lambda>d n. if d = 4 then (17, port_file) else if d = 5 then (10, stray_file)
                        else if d = 6 then (0, []) else (- 1, [])),
      lex_create_fails = False,
      lex_tokens = (\<lambda>b. if b = port_file then port_tokens
                         else if b = stray_file then stray_tokens else [])\<rparr>"

definition parse_start :: "server_conf \<Rightarrow> pstate" where
  "parse_start c = \<lparr>lx = lex_create [], conf = c, stdout = [], stderr = [], logged = [],
                     port_sets = []\<rparr>"




text \<open>
  A fifth file, \<open>bogus.conf\<close>, with the line \<open>SERVER ? PORT=7777\<close>, read with a \<open>MAX_LINE\<close> of
  1, so that no message has room for a single character.
\<close>

definition bogus_file :: string where
  "bogus_file = ''SERVER ? PORT=7777'' @ [CHR 0x0A]"

definition bogus_tokens :: "lexeme list" where
  "bogus_tokens =
     [(LEX_TOK SERVER_CONF_SERVER, ''SERVER'', 1), (LEX_CHAR CHR ''?'', ''?'', 1),
      (LEX_TOK SERVER_CONF_PORT, ''PORT'', 1), (LEX_CHAR CHR ''='', ''='', 1), (LEX_INT, ''7777'', 1),
      (LEX_EOL, [CHR 0x0A], 1)]"

definition short_conf_env :: conf_env where
  "short_conf_env =
     ex_conf_env
       \<lparr>MAX_LINE := 1,
        sys_open := (\<lambda>f. if f = ''bogus.conf'' then 8 else - 1),
        fstat_size := (\<lambda>d. if d = 8 then Some (int (length bogus_file)) else None),
        read_n := (\<lambda>d n. if d = 8 then (int (length bogus_file), bogus_file) else (- 1, [])),
        lex_tokens := (\<lambda>b. if b = bogus_file then bogus_tokens else [])\<rparr>"

section \<open>Auxiliary lemmas\<close>

subsection \<open>The buffer\<close>

lemma length_memcpy_at: "i + length src \<le> length b \<Longrightarrow> length (memcpy_at b i src) = length b"
  by (simp add: memcpy_at_def)

lemma write_obj_data_eq:
  assumes io: "bufInPtr ob < M" "bufOutPtr ob < M"
    and len: "0 < len" and L: "L = clamp_len M len" and bytes: "L \<le> length bytes"
  shows "write_obj_data M ob (Some bytes) len =
           Inr (int L,
                ob\<lparr>buf := wrap_copy M (buf ob) (bufInPtr ob) (take L bytes),
                   bufInPtr := (bufInPtr ob + L) mod M,
                   bufOutPtr := (if L > code_avail M ob then wrap_succ M ((bufInPtr ob + L) mod M)
                                 else bufOutPtr ob)\<rparr>,
                if L > code_avail M ob
                then [LogMsg 10 (''['' @ name ob @ ''] overwrote '' @ show_nat (L - code_avail M ob) @ '' bytes'')]
                else [])"
proof -
  have LM: "L < M" using io L len by (auto simp: clamp_len_def)
  have L': "(if len \<ge> int M then nat (int M - 1) else nat len) = L"
    using L by (auto simp: clamp_len_def)
  have nb: "\<not> length bytes < L" using bytes by simp
  have ws: "wrap_succ M i < M" if "i < M" for i using that by (auto simp: wrap_succ_def)
  consider (zero) "L = 0" | (fit) "0 < L" "bufInPtr ob + L < M" | (exact) "0 < L" "bufInPtr ob + L = M"
    | (wrap) "0 < L" "bufInPtr ob + L > M" by linarith
  then show ?thesis
  proof cases
    case zero
    then show ?thesis
      using io len nb L'
      by (simp add: write_obj_data_def Let_def wrap_copy_def memcpy_at_def code_avail_def)
  next
    case fit
    then have m: "min L (M - bufInPtr ob) = L" by simp
    have md: "(bufInPtr ob + L) mod M = bufInPtr ob + L" using fit by simp
    have le: "L \<le> M - bufInPtr ob" using fit by simp
    show ?thesis
      using io len nb fit ws[of "bufInPtr ob + L"]
      by (simp add: write_obj_data_def Let_def L' m md wrap_copy_def le code_avail_def wrap_succ_def)
  next
    case exact
    then have m: "min L (M - bufInPtr ob) = L" by simp
    have md: "(bufInPtr ob + L) mod M = 0" using exact by simp
    have le: "L \<le> M - bufInPtr ob" using exact by simp
    show ?thesis
      using io len nb exact ws[of 0]
      by (simp add: write_obj_data_def Let_def L' m md wrap_copy_def le code_avail_def wrap_succ_def)
  next
    case wrap
    then have m: "min L (M - bufInPtr ob) = M - bufInPtr ob" by simp
    have "(bufInPtr ob + L) mod M = (bufInPtr ob + L - M) mod M"
      using wrap by (simp add: le_mod_geq)
    also have "\<dots> = bufInPtr ob + L - M" using LM io by simp
    also have "\<dots> = L - (M - bufInPtr ob)" using io by simp
    finally have md: "(bufInPtr ob + L) mod M = L - (M - bufInPtr ob)" .
    have le: "\<not> L \<le> M - bufInPtr ob" using wrap by simp
    have lt: "L - (M - bufInPtr ob) < M" using LM by simp
    have tk: "drop (M - bufInPtr ob) (take L bytes) = take (L + bufInPtr ob - M) (drop (M - bufInPtr ob) bytes)"
      using io by (simp add: drop_take)
    have tk2: "take (M - bufInPtr ob) bytes = take (M - bufInPtr ob) (take L bytes)"
    proof -
      have "M - bufInPtr ob \<le> L" using wrap by simp
      then show ?thesis by (simp add: min_absorb1)
    qed
    show ?thesis
      using io len nb wrap ws[of "L - (M - bufInPtr ob)"] lt
      by (simp add: write_obj_data_def Let_def L' m md wrap_copy_def le tk tk2[symmetric] code_avail_def wrap_succ_def)
  qed
qed

lemma write_again_inv:
  assumes "buf_inv M ob" "\<forall>n. Wrote n \<in> set rs \<longrightarrow> n \<le> write_avail M ob"
    "write_again M ob (write_avail M ob) rs = Inr (ob', evs)"
  shows "buf_inv M ob' \<and> bufOutPtr ob' < M"
  using assms
proof (induction rs arbitrary: evs)
  case Nil then show ?case by simp
next
  case (Cons r rs)
  show ?case
  proof (cases r)
    case (Wrote n)
    with Cons.prems show ?thesis
      by (auto simp: buf_inv_def write_avail_def Let_def split: if_splits)
  next
    case (Failed en)
    with Cons show ?thesis
      by (cases en) (auto simp: buf_inv_def Let_def split: sum.splits)
  qed
qed

lemma write_again_err:
  "write_again M ob a rs = Inl err \<Longrightarrow> err = OutOfFuel \<or> (\<exists>msg. err = Fatal msg)"
proof (induction rs)
  case Nil then show ?case by simp
next
  case (Cons r rs)
  show ?case
  proof (cases r)
    case (Wrote n)
    with Cons.prems show ?thesis by (simp add: Let_def split: if_splits)
  next
    case (Failed en)
    with Cons show ?thesis
      by (cases en) (auto simp: Let_def split: sum.splits)
  qed
qed

lemma write_to_obj_locked_inv:
  assumes "buf_inv M ob" "\<forall>n. Wrote n \<in> set rs \<longrightarrow> n \<le> write_avail M ob"
  shows "case write_to_obj_locked M rs ob of
           Inr (ob', evs) \<Rightarrow> buf_inv M ob'
         | Inl err \<Rightarrow> err = OutOfFuel \<or> (\<exists>msg. err = Fatal msg)"
proof -
  from assms(1) have io: "bufInPtr ob < M" "bufOutPtr ob < M" by (auto simp: buf_inv_def)
  show ?thesis
  proof (cases "0 < write_avail M ob")
    case False
    then show ?thesis using io assms(1) by (simp add: write_to_obj_locked_def)
  next
    case True
    show ?thesis
    proof (cases "write_again M ob (write_avail M ob) rs")
      case (Inl err)
      then show ?thesis using io True write_again_err[OF Inl]
        by (simp add: write_to_obj_locked_def)
    next
      case (Inr res)
      obtain ob' evs where res: "res = (ob', evs)" by (cases res)
      from write_again_inv[OF assms Inr[unfolded res]]
      show ?thesis using io True Inr res by (simp add: write_to_obj_locked_def)
    qed
  qed
qed

lemma posix_writes_iff:
  "posix_writes M ob rs \<longleftrightarrow> (\<forall>n. Wrote n \<in> set rs \<longrightarrow> n \<le> write_avail M ob)"
proof -
  have "posix_writes M ob rs \<longleftrightarrow>
          (\<forall>r\<in>set rs. case r of Wrote n \<Rightarrow> n \<le> write_avail M ob | Failed en \<Rightarrow> True)"
    by (simp add: posix_writes_def list_all_iff)
  also have "\<dots> \<longleftrightarrow> (\<forall>n. Wrote n \<in> set rs \<longrightarrow> n \<le> write_avail M ob)"
    by (auto split: write_result.splits)
  finally show ?thesis .
qed

lemma write_obj_data_inv:
  assumes "buf_inv M ob"
  shows "case write_obj_data M ob src len of
           Inr (r, ob', evs) \<Rightarrow> buf_inv M ob'
         | Inl err \<Rightarrow> err = BadRead"
proof (cases "src = None \<or> len \<le> 0")
  case True
  then show ?thesis using assms by (auto simp: write_obj_data_def split: option.splits)
next
  case False
  then obtain bytes where src: "src = Some bytes" and len: "0 < len" by auto
  from assms have io: "bufInPtr ob < M" "bufOutPtr ob < M" and lb: "length (buf ob) = M"
    by (auto simp: buf_inv_def)
  define L where "L = clamp_len M len"
  have LM: "L < M" using io len by (auto simp: L_def clamp_len_def)
  show ?thesis
  proof (cases "L \<le> length bytes")
    case False
    then have "length bytes < (if len \<ge> int M then nat (int M - 1) else nat len)"
      by (auto simp: L_def clamp_len_def)
    then show ?thesis using io len unfolding src
      by (simp add: write_obj_data_def Let_def)
  next
    case True
    have len_wc: "length (wrap_copy M (buf ob) (bufInPtr ob) (take L bytes)) = M"
      using True LM io lb by (auto simp: wrap_copy_def length_memcpy_at min_def)
    have md: "(bufInPtr ob + L) mod M < M" using io by simp
    then have ws: "wrap_succ M ((bufInPtr ob + L) mod M) < M"
      by (auto simp: wrap_succ_def)
    show ?thesis
      unfolding src write_obj_data_eq[OF io len L_def True]
      using len_wc ws md io by (simp add: buf_inv_def)
  qed
qed

subsection \<open>The frame of close_obj\<close>

lemma obj_kept_refl: "obj_kept ob ob"
  by (simp add: obj_kept_def)

lemma obj_kept_trans: "obj_kept a b \<Longrightarrow> obj_kept b c \<Longrightarrow> obj_kept a c"
  by (auto simp: obj_kept_def)

lemma close_rel_refl: "close_rel s s"
  by (auto simp: close_rel_def obj_kept_refl)

lemma close_rel_trans:
  assumes "close_rel s t" "close_rel t u"
  shows "close_rel s u"
proof -
  from assms obtain e1 e2 where
    e: "trace t = trace s @ e1" "list_all destroy_ok e1" "trace u = trace t @ e2" "list_all destroy_ok e2"
    by (auto simp: close_rel_def)
  have tr: "\<exists>evs. trace u = trace s @ evs \<and> list_all destroy_ok evs"
    using e by (intro exI[of _ "e1 @ e2"]) simp
  have hp: "\<exists>ob. heap s p = Some ob \<and> obj_kept ob ob'" if "heap u p = Some ob'" for p ob'
  proof -
    from assms(2) that obtain ob1 where 1: "heap t p = Some ob1" "obj_kept ob1 ob'"
      by (auto simp: close_rel_def)
    from assms(1) 1 obtain ob0 where 0: "heap s p = Some ob0" "obj_kept ob0 ob1"
      by (auto simp: close_rel_def)
    from 0 1 show ?thesis by (auto intro: obj_kept_trans)
  qed
  from assms have "brk u = brk s" by (simp add: close_rel_def)
  with tr hp show ?thesis by (simp add: close_rel_def)
qed

lemma close_rel_store:
  "heap s p = Some ob \<Longrightarrow> obj_kept ob ob' \<Longrightarrow> close_rel s (store s p ob')"
  by (auto simp: close_rel_def store_def obj_kept_refl)

lemma close_rel_emit: "list_all destroy_ok evs \<Longrightarrow> close_rel s (emit s evs)"
  by (auto simp: close_rel_def emit_def obj_kept_refl)

lemma close_rel_free: "close_rel s (free s p)"
  by (auto simp: close_rel_def free_def obj_kept_refl)

lemma okres_Inr: "close_rel s (pr x) \<Longrightarrow> okres pr s (Inr x)"
  by (simp add: okres_def)

lemma okres_weaken: "close_rel s t \<Longrightarrow> okres pr t m \<Longrightarrow> okres pr s m"
  by (auto simp: okres_def split: sum.splits intro: close_rel_trans)

lemma okres_bind:
  assumes "okres pr s m" and "\<And>x. m = Inr x \<Longrightarrow> close_rel s (pr x) \<Longrightarrow> okres pr' (pr x) (f x)"
  shows "okres pr' s (ebind m f)"
proof (cases m)
  case (Inl err)
  with assms(1) show ?thesis by (simp add: okres_def ebind_def)
next
  case (Inr x)
  with assms(1) have r: "close_rel s (pr x)" by (simp add: okres_def)
  from okres_weaken[OF r assms(2)[OF Inr r]] Inr show ?thesis by (simp add: ebind_def)
qed

lemma okres_deref:
  assumes "\<And>ob. heap s p = Some ob \<Longrightarrow> okres pr s (f ob)"
  shows "okres pr s (ebind (deref s p) f)"
  using assms by (cases "heap s p") (auto simp: deref_def ebind_def okres_def)

lemma heap_store_same: "heap (store s p ob) p = Some ob"
  by (simp add: store_def)

lemma heap_emit: "heap (emit s evs) = heap s"
  by (simp add: emit_def)

lemma okres_destroy_obj:
  assumes "heap s obj = Some ob" "fd ob < 0" "bufInPtr ob = bufOutPtr ob"
  shows "okres (\<lambda>t. t) s (destroy_obj e s obj)"
proof -
  have "destroy_obj e s obj = Inr (free (emit s [DestroyObj obj (bufInPtr ob) (bufOutPtr ob) (fd ob)]) obj)"
    using assms by (simp add: destroy_obj_def deref_def ebind_def Let_def)
  moreover have "close_rel s (free (emit s [DestroyObj obj (bufInPtr ob) (bufOutPtr ob) (fd ob)]) obj)"
    using assms by (intro close_rel_trans[OF close_rel_emit close_rel_free]) simp
  ultimately show ?thesis by (simp add: okres_def)
qed

lemma okres_close_teardown: "okres (\<lambda>t. t) s (close_teardown e s obj)"
  unfolding close_teardown_def
proof (rule okres_deref)
  fix ob assume h: "heap s obj = Some ob"
  let ?rest = "\<lambda>s1. if otype ob = SOCKET then destroy_obj e s1 obj else Inr s1"
  show "okres (\<lambda>t. t) s
          (if bufInPtr ob \<noteq> bufOutPtr ob then Inr (store s obj (ob\<lparr>gotEOF := True\<rparr>))
           else ebind (if 0 \<le> fd ob
                       then if close_fails e (fd ob) then Inl (Fatal ''close() failed'')
                            else Inr (emit (store s obj (ob\<lparr>gotEOF := False, fd := - 1\<rparr>)) [SysClose (fd ob)])
                       else Inr (store s obj (ob\<lparr>gotEOF := False\<rparr>)))
                  ?rest)"
  proof (cases "bufInPtr ob \<noteq> bufOutPtr ob")
    case True
    then show ?thesis using h
      by (auto intro!: okres_Inr close_rel_store simp: obj_kept_def)
  next
    case False
    define ob1 where "ob1 = (if 0 \<le> fd ob then ob\<lparr>gotEOF := False, fd := - 1\<rparr> else ob\<lparr>gotEOF := False\<rparr>)"
    have k1: "obj_kept ob ob1" by (simp add: ob1_def obj_kept_def)
    have f1: "fd ob1 < 0" "bufInPtr ob1 = bufOutPtr ob1" using False by (auto simp: ob1_def)
    have step: "okres (\<lambda>t. t) s (if 0 \<le> fd ob
                       then if close_fails e (fd ob) then Inl (Fatal ''close() failed'')
                            else Inr (emit (store s obj (ob\<lparr>gotEOF := False, fd := - 1\<rparr>)) [SysClose (fd ob)])
                       else Inr (store s obj (ob\<lparr>gotEOF := False\<rparr>)))" (is "okres (\<lambda>t. t) s ?m")
      using h by (auto simp: okres_def obj_kept_def
          intro!: close_rel_trans[OF close_rel_store close_rel_emit])
        (auto intro!: close_rel_store simp: obj_kept_def)
    have rest: "okres (\<lambda>t. t) x (?rest x)" if "?m = Inr x" for x
    proof -
      from that have "heap x obj = Some ob1"
        by (auto simp: ob1_def heap_emit heap_store_same split: if_splits)
      with f1 show ?thesis by (auto intro: okres_destroy_obj okres_Inr close_rel_refl)
    qed
    show ?thesis
      by (subst if_not_P[OF False]) (rule okres_bind[OF step], rule rest)
  qed
qed


lemma okres_Inl: "(\<And>msg. err \<noteq> AssertFailed msg) \<Longrightarrow> okres pr s (Inl err)"
  by (simp add: okres_def)

lemma okres_if: "(c \<Longrightarrow> okres pr s a) \<Longrightarrow> (\<not> c \<Longrightarrow> okres pr s b) \<Longrightarrow> okres pr s (if c then a else b)"
  by simp

lemma okres_emit: "list_all destroy_ok evs \<Longrightarrow> okres pr (emit s evs) m \<Longrightarrow> okres pr s m"
  by (rule okres_weaken[OF close_rel_emit])

lemma okres_store:
  "heap s p = Some ob \<Longrightarrow> obj_kept ob ob' \<Longrightarrow> okres pr (store s p ob') m \<Longrightarrow> okres pr s m"
  by (rule okres_weaken[OF close_rel_store])

lemma okres_writer_part:
  assumes IH1: "\<And>s obj. okres (\<lambda>t. t) s (close_obj e k s obj)"
  shows "okres fst s1
      (case writer ob of
         None \<Rightarrow> Inr (s1, uninit_reader e)
       | Some w \<Rightarrow>
           ebind (deref s1 w) (\<lambda>wo.
             if obj \<in> set (readers wo) then
               (let s1' = store s1 w (wo\<lparr>readers := remove1 obj (readers wo)\<rparr>) in
                ebind (if writer wo = None \<and> remove1 obj (readers wo) = []
                       then close_obj e k s1' w else Inr s1') (\<lambda>s2.
                ebind (deref s2 obj) (\<lambda>ob2.
                  Inr (store s2 obj (ob2\<lparr>writer := None\<rparr>), Some obj))))
             else Inr (s1, None)))"
proof (cases "writer ob")
  case None
  then show ?thesis by (simp add: okres_def close_rel_refl)
next
  case (Some w)
  have "okres fst s1 (ebind (deref s1 w) (\<lambda>wo.
           if obj \<in> set (readers wo) then
             (let s1' = store s1 w (wo\<lparr>readers := remove1 obj (readers wo)\<rparr>) in
              ebind (if writer wo = None \<and> remove1 obj (readers wo) = []
                     then close_obj e k s1' w else Inr s1') (\<lambda>s2.
              ebind (deref s2 obj) (\<lambda>ob2.
                Inr (store s2 obj (ob2\<lparr>writer := None\<rparr>), Some obj))))
           else Inr (s1, None)))"
  proof (rule okres_deref)
    fix wo assume hw: "heap s1 w = Some wo"
    define s1' where "s1' = store s1 w (wo\<lparr>readers := remove1 obj (readers wo)\<rparr>)"
    have r1: "close_rel s1 s1'" unfolding s1'_def
      by (rule close_rel_store[OF hw]) (simp add: obj_kept_def)
    have m: "okres (\<lambda>t. t) s1' (if writer wo = None \<and> remove1 obj (readers wo) = []
                     then close_obj e k s1' w else Inr s1')"
      using IH1 by (simp add: okres_def close_rel_refl)
    have f: "okres fst s2 (ebind (deref s2 obj) (\<lambda>ob2.
                Inr (store s2 obj (ob2\<lparr>writer := None\<rparr>), Some obj)))" for s2
      by (rule okres_deref) (auto intro!: okres_Inr close_rel_store simp: obj_kept_def)
    have "okres fst s1' (ebind (if writer wo = None \<and> remove1 obj (readers wo) = []
                     then close_obj e k s1' w else Inr s1') (\<lambda>s2.
              ebind (deref s2 obj) (\<lambda>ob2.
                Inr (store s2 obj (ob2\<lparr>writer := None\<rparr>), Some obj))))"
      by (rule okres_bind[OF m]) (rule f)
    from okres_weaken[OF r1 this]
    have yes: "obj \<in> set (readers wo) \<Longrightarrow> okres fst s1
              (ebind (if writer wo = None \<and> remove1 obj (readers wo) = []
                     then close_obj e k s1' w else Inr s1') (\<lambda>s2.
              ebind (deref s2 obj) (\<lambda>ob2.
                Inr (store s2 obj (ob2\<lparr>writer := None\<rparr>), Some obj))))" .
    have no: "okres fst s1 (Inr (s1, None))" by (simp add: okres_def close_rel_refl)
    show "okres fst s1 (if obj \<in> set (readers wo) then
             (let s1' = store s1 w (wo\<lparr>readers := remove1 obj (readers wo)\<rparr>) in
              ebind (if writer wo = None \<and> remove1 obj (readers wo) = []
                     then close_obj e k s1' w else Inr s1') (\<lambda>s2.
              ebind (deref s2 obj) (\<lambda>ob2.
                Inr (store s2 obj (ob2\<lparr>writer := None\<rparr>), Some obj))))
           else Inr (s1, None))"
      unfolding Let_def s1'_def[symmetric] using yes no by (rule okres_if)
  qed
  with Some show ?thesis by simp
qed

lemma okres_close_obj:
  "okres (\<lambda>t. t) s (close_obj e k s obj) \<and> okres (\<lambda>t. t) s (close_obj_readers e k s obj r)"
proof (induction k arbitrary: s obj r)
  case 0
  show ?case by (simp add: okres_def)
next
  case (Suc k)
  have IH1: "\<And>s obj. okres (\<lambda>t. t) s (close_obj e k s obj)"
    and IH2: "\<And>s obj r. okres (\<lambda>t. t) s (close_obj_readers e k s obj r)"
    using Suc by blast+
  note W = okres_writer_part[where e = e and k = k, OF IH1]
  have A: "okres (\<lambda>t. t) s (close_obj e (Suc k) s obj)"
    unfolding close_obj.simps Let_def
  proof (rule okres_emit[of "[CloseObj obj]"], simp, rule okres_deref, rule okres_bind[where pr = fst])
    fix ob
    show "okres fst (emit s [CloseObj obj])
      (case writer ob of
         None \<Rightarrow> Inr (emit s [CloseObj obj], uninit_reader e)
       | Some w \<Rightarrow>
           ebind (deref (emit s [CloseObj obj]) w) (\<lambda>wo.
             if obj \<in> set (readers wo) then
                ebind (if writer wo = None \<and> remove1 obj (readers wo) = []
                       then close_obj e k (store (emit s [CloseObj obj]) w (wo\<lparr>readers := remove1 obj (readers wo)\<rparr>)) w
                       else Inr (store (emit s [CloseObj obj]) w (wo\<lparr>readers := remove1 obj (readers wo)\<rparr>))) (\<lambda>s2.
                ebind (deref s2 obj) (\<lambda>ob2.
                  Inr (store s2 obj (ob2\<lparr>writer := None\<rparr>), Some obj)))
             else Inr (emit s [CloseObj obj], None)))"
      by (rule W[where ?s1.0 = "emit s [CloseObj obj]" and ob = ob, unfolded Let_def])
  next
    fix ob x
    show "okres (\<lambda>t. t) (fst x)
           (case x of (s3, reader) \<Rightarrow>
              ebind (close_obj_readers e k s3 obj reader) (\<lambda>s4. close_teardown e s4 obj))"
      by (cases x) (auto intro!: okres_bind[OF IH2] okres_close_teardown)
  qed
  have B: "okres (\<lambda>t. t) s (close_obj_readers e (Suc k) s obj r)"
    unfolding close_obj_readers.simps
  proof (rule okres_deref)
    fix ob assume h: "heap s obj = Some ob"
    obtain popped rest where lp: "list_pop (readers ob) = (popped, rest)"
      by (cases "list_pop (readers ob)")
    define s1 where "s1 = store s obj (ob\<lparr>readers := rest\<rparr>)"
    have r1: "close_rel s s1" unfolding s1_def
      by (rule close_rel_store[OF h]) (simp add: obj_kept_def)
    have body: "okres (\<lambda>t. t) s1
        (if r \<noteq> popped then Inr s1
         else (case r of
                 None \<Rightarrow> Inl NullDeref
               | Some r' \<Rightarrow>
                   ebind (deref s1 r') (\<lambda>ro.
                   ebind (if writer ro = Some obj then
                            (let s2 = store s1 r' (ro\<lparr>writer := None\<rparr>)
                             in if readers ro = [] then close_obj e k s2 r' else Inr s2)
                          else Inr s1) (\<lambda>s3.
                     close_obj_readers e k s3 obj r))))"
    proof (cases "r \<noteq> popped")
      case True
      then show ?thesis by (simp add: okres_def close_rel_refl)
    next
      case False
      show ?thesis
      proof (cases r)
        case None
        with False show ?thesis by (simp add: okres_def)
      next
        case (Some r')
        have "okres (\<lambda>t. t) s1 (ebind (deref s1 r') (\<lambda>ro.
                   ebind (if writer ro = Some obj then
                            (let s2 = store s1 r' (ro\<lparr>writer := None\<rparr>)
                             in if readers ro = [] then close_obj e k s2 r' else Inr s2)
                          else Inr s1) (\<lambda>s3.
                     close_obj_readers e k s3 obj r)))"
        proof (rule okres_deref)
          fix ro assume hr: "heap s1 r' = Some ro"
          have r2: "close_rel s1 (store s1 r' (ro\<lparr>writer := None\<rparr>))"
            by (rule close_rel_store[OF hr]) (simp add: obj_kept_def)
          have m: "okres (\<lambda>t. t) s1 (if writer ro = Some obj then
                            (let s2 = store s1 r' (ro\<lparr>writer := None\<rparr>)
                             in if readers ro = [] then close_obj e k s2 r' else Inr s2)
                          else Inr s1)"
            using okres_weaken[OF r2 IH1] r2
            by (simp add: Let_def okres_def close_rel_refl)
          show "okres (\<lambda>t. t) s1 (ebind (if writer ro = Some obj then
                            (let s2 = store s1 r' (ro\<lparr>writer := None\<rparr>)
                             in if readers ro = [] then close_obj e k s2 r' else Inr s2)
                          else Inr s1) (\<lambda>s3.
                     close_obj_readers e k s3 obj r))"
            by (rule okres_bind[OF m]) (rule IH2)
        qed
        with False Some show ?thesis by auto
      qed
    qed
    show "okres (\<lambda>t. t) s
        (let (popped, rest) = list_pop (readers ob);
             s1 = store s obj (ob\<lparr>readers := rest\<rparr>)
         in if r \<noteq> popped then Inr s1
            else (case r of
                    None \<Rightarrow> Inl NullDeref
                  | Some r' \<Rightarrow>
                      ebind (deref s1 r') (\<lambda>ro.
                      ebind (if writer ro = Some obj then
                               (let s2 = store s1 r' (ro\<lparr>writer := None\<rparr>)
                                in if readers ro = [] then close_obj e k s2 r' else Inr s2)
                             else Inr s1) (\<lambda>s3.
                        close_obj_readers e k s3 obj r))))"
      unfolding lp Let_def prod.case
      by (rule okres_weaken[OF r1 body, unfolded Let_def s1_def])
  qed
  from A B show ?case ..
qed

subsection \<open>The last step of close_obj\<close>

lemma ebind_InrE:
  assumes "ebind m f = Inr y"
  obtains x where "m = Inr x" "f x = Inr y"
  using assms by (cases m) (auto simp: ebind_def)

lemma okres_InrD: "okres pr s m \<Longrightarrow> m = Inr x \<Longrightarrow> close_rel s (pr x)"
  by (simp add: okres_def)

lemma deref_Inr: "deref s p = Inr ob \<longleftrightarrow> heap s p = Some ob"
  by (auto simp: deref_def split: option.splits)

lemma okres_all: "okres (\<lambda>t. t) s (close_obj e k s obj)" "okres (\<lambda>t. t) s (close_obj_readers e k s obj r)"
  using okres_close_obj by blast+

lemma close_obj_Suc_teardown:
  assumes "close_obj e (Suc k) s obj = Inr s'"
  shows "\<exists>s4. close_rel (emit s [CloseObj obj]) s4 \<and> close_teardown e s4 obj = Inr s'"
proof -
  let ?s0 = "emit s [CloseObj obj]"
  have r0: "close_rel s ?s0" by (rule close_rel_emit) simp
  from assms have "ebind (deref ?s0 obj) (\<lambda>ob.
      ebind
        (case writer ob of
           None \<Rightarrow> Inr (?s0, uninit_reader e)
         | Some w \<Rightarrow>
             ebind (deref ?s0 w) (\<lambda>wo.
               if obj \<in> set (readers wo) then
                 (let s1 = store ?s0 w (wo\<lparr>readers := remove1 obj (readers wo)\<rparr>) in
                  ebind (if writer wo = None \<and> remove1 obj (readers wo) = []
                         then close_obj e k s1 w else Inr s1) (\<lambda>s2.
                  ebind (deref s2 obj) (\<lambda>ob2.
                    Inr (store s2 obj (ob2\<lparr>writer := None\<rparr>), Some obj))))
               else Inr (?s0, None)))
        (\<lambda>(s3, reader).
      ebind (close_obj_readers e k s3 obj reader) (\<lambda>s4.
        close_teardown e s4 obj))) = Inr s'" (is "ebind _ ?F = _")
    by (simp add: Let_def)
  then obtain ob where b: "?F ob = Inr s'" by (rule ebind_InrE)
  from b have "?F ob = Inr s'" (is "ebind ?M ?G = _") .
  then obtain x where m: "?M = Inr x" and g: "?G x = Inr s'" by (rule ebind_InrE)
  obtain s3 reader where x: "x = (s3, reader)" by (cases x)
  from okres_InrD[OF okres_writer_part[where e = e and k = k, OF okres_all(1)] m]
  have r1: "close_rel ?s0 s3" by (simp add: x)
  from g x have "ebind (close_obj_readers e k s3 obj reader) (\<lambda>s4. close_teardown e s4 obj) = Inr s'"
    by simp
  then obtain s4 where c: "close_obj_readers e k s3 obj reader = Inr s4"
    and t: "close_teardown e s4 obj = Inr s'" by (rule ebind_InrE)
  from okres_InrD[OF okres_all(2) c] have r2: "close_rel s3 s4" .
  from r1 r2 have "close_rel ?s0 s4" by (blast intro: close_rel_trans)
  with t show ?thesis by blast
qed

lemma close_teardown_empty:
  assumes h: "heap s obj = Some ob" and e: "bufInPtr ob = bufOutPtr ob"
    and c: "\<not> (0 \<le> fd ob \<and> close_fails e (fd ob))"
  shows "\<exists>s'. close_teardown e s obj = Inr s'
            \<and> trace s' = trace s @ (if 0 \<le> fd ob then [SysClose (fd ob)] else [])
                 @ (if otype ob = SOCKET
                    then [DestroyObj obj (bufInPtr ob) (bufOutPtr ob) (if 0 \<le> fd ob then - 1 else fd ob)]
                    else [])
            \<and> heap s' obj = (if otype ob = SOCKET then None
                              else Some (ob\<lparr>gotEOF := False, fd := (if 0 \<le> fd ob then - 1 else fd ob)\<rparr>))
            \<and> (\<forall>q. q \<noteq> obj \<longrightarrow> heap s' q = heap s q)"
  using assms
  by (auto simp: close_teardown_def destroy_obj_def deref_def ebind_def store_def emit_def free_def Let_def)

lemma close_teardown_nonempty:
  assumes h: "heap s obj = Some ob" and e: "bufInPtr ob \<noteq> bufOutPtr ob"
  shows "close_teardown e s obj = Inr (store s obj (ob\<lparr>gotEOF := True\<rparr>))"
  using assms by (simp add: close_teardown_def deref_def ebind_def)


lemma close_rel_heapD:
  "close_rel s s' \<Longrightarrow> heap s' p = Some ob' \<Longrightarrow> \<exists>ob. heap s p = Some ob \<and> obj_kept ob ob'"
  by (simp add: close_rel_def)

lemma write_again_events:
  "write_again M ob a rs = Inr (ob', evs) \<Longrightarrow>
     otype ob' = otype ob \<and> (\<forall>ev\<in>set evs. \<exists>d bs. ev = SysWrite d bs)"
proof (induction rs arbitrary: evs)
  case Nil then show ?case by simp
next
  case (Cons r rs)
  show ?case
  proof (cases r)
    case (Wrote n)
    with Cons.prems show ?thesis by (auto simp: Let_def split: if_splits)
  next
    case (Failed en)
    with Cons show ?thesis
      by (cases en) (auto simp: Let_def split: sum.splits)
  qed
qed

lemma write_to_obj_locked_events:
  assumes "write_to_obj_locked M rs ob = Inr (ob', evs)"
  shows "otype ob' = otype ob \<and> (\<forall>ev\<in>set evs. \<exists>d bs. ev = SysWrite d bs)"
proof (cases "0 < write_avail M ob")
  case False
  with assms show ?thesis by (auto simp: write_to_obj_locked_def split: if_splits)
next
  case True
  with assms have "write_again M ob (write_avail M ob) rs = Inr (ob', evs)"
    by (auto simp: write_to_obj_locked_def Let_def split: if_splits sum.splits)
  then show ?thesis by (rule write_again_events)
qed

subsection \<open>The buffer bounds in the store\<close>

lemma keeps_Inr: "heap_inv M (pr x) \<Longrightarrow> keeps M pr (Inr x)"
  by (simp add: keeps_def)

lemma keeps_Inl: "keeps M pr (Inl err)"
  by (simp add: keeps_def)

lemma keeps_bind:
  assumes "keeps M pr m" and "\<And>x. m = Inr x \<Longrightarrow> heap_inv M (pr x) \<Longrightarrow> keeps M pr' (f x)"
  shows "keeps M pr' (ebind m f)"
  using assms by (cases m) (auto simp: keeps_def ebind_def)

lemma keeps_deref:
  assumes "\<And>ob. heap s p = Some ob \<Longrightarrow> keeps M pr (f ob)"
  shows "keeps M pr (ebind (deref s p) f)"
  using assms by (cases "heap s p") (auto simp: deref_def ebind_def keeps_def)

lemma heap_invD: "heap_inv M s \<Longrightarrow> heap s p = Some ob \<Longrightarrow> buf_inv M ob"
  by (simp add: heap_inv_def)

lemma heap_inv_store: "heap_inv M s \<Longrightarrow> buf_inv M ob \<Longrightarrow> heap_inv M (store s p ob)"
  by (simp add: heap_inv_def store_def)

lemma heap_inv_emit: "heap_inv M (emit s evs) = heap_inv M s"
  by (simp add: heap_inv_def emit_def)

lemma heap_inv_free: "heap_inv M s \<Longrightarrow> heap_inv M (free s p)"
  by (simp add: heap_inv_def free_def)

lemma heap_inv_close_rel: "heap_inv M s \<Longrightarrow> close_rel s s' \<Longrightarrow> heap_inv M s'"
  unfolding heap_inv_def
proof (intro allI impI)
  fix p ob'
  assume a: "\<forall>p ob. heap s p = Some ob \<longrightarrow> buf_inv M ob" and r: "close_rel s s'"
    and h: "heap s' p = Some ob'"
  from close_rel_heapD[OF r h] obtain ob where "heap s p = Some ob" "obj_kept ob ob'" by blast
  with a show "buf_inv M ob'" by (auto simp: obj_kept_def buf_inv_def)
qed

lemma keeps_okres: "heap_inv M s \<Longrightarrow> okres pr s m \<Longrightarrow> keeps M pr m"
  by (auto simp: keeps_def okres_def intro: heap_inv_close_rel)

lemma keeps_close_obj: "heap_inv M s \<Longrightarrow> keeps M (\<lambda>t. t) (close_obj e k s obj)"
  by (rule keeps_okres[OF _ okres_all(1)])

lemma buf_inv_upd [simp]:
  "buf_inv M (ob\<lparr>fd := a\<rparr>) = buf_inv M ob"
  "buf_inv M (ob\<lparr>gotEOF := b\<rparr>) = buf_inv M ob"
  "buf_inv M (ob\<lparr>aux := c\<rparr>) = buf_inv M ob"
  "buf_inv M (ob\<lparr>writer := w\<rparr>) = buf_inv M ob"
  "buf_inv M (ob\<lparr>readers := r\<rparr>) = buf_inv M ob"
  by (simp_all add: buf_inv_def)

lemma keeps_destroy_obj:
  assumes "heap_inv M s"
  shows "keeps M (\<lambda>t. t) (destroy_obj e s obj)"
  unfolding destroy_obj_def Let_def
proof (rule keeps_deref)
  fix ob assume h: "heap s obj = Some ob"
  from heap_invD[OF assms h] have bi: "buf_inv M ob" .
  have 1: "keeps M (\<lambda>t. t)
             (if 0 \<le> fd ob
              then if close_fails e (fd ob) then Inl (Fatal ''close() failed'')
                   else Inr (emit (store (emit s [DestroyObj obj (bufInPtr ob) (bufOutPtr ob) (fd ob)]) obj
                                    (ob\<lparr>fd := - 1\<rparr>)) [SysClose (fd ob), DestroyClose obj])
              else Inr (emit s [DestroyObj obj (bufInPtr ob) (bufOutPtr ob) (fd ob)]))"
    using assms bi by (simp add: keeps_def heap_inv_emit heap_inv_store)
  have 2: "keeps M (\<lambda>t. t) (Inr (free x obj))" if "heap_inv M x" for x
    using that by (simp add: keeps_def heap_inv_free)
  show "keeps M (\<lambda>t. t)
          (if bufInPtr ob \<noteq> bufOutPtr ob then Inl (AssertFailed ''destroy_obj: bufInPtr == bufOutPtr'')
           else ebind
                 (if 0 \<le> fd ob
                  then if close_fails e (fd ob) then Inl (Fatal ''close() failed'')
                       else Inr (emit (store (emit s [DestroyObj obj (bufInPtr ob) (bufOutPtr ob) (fd ob)]) obj
                                        (ob\<lparr>fd := - 1\<rparr>)) [SysClose (fd ob), DestroyClose obj])
                  else Inr (emit s [DestroyObj obj (bufInPtr ob) (bufOutPtr ob) (fd ob)]))
                 (\<lambda>s1. Inr (free s1 obj)))"
    using keeps_bind[OF 1, of "\<lambda>t. t" "\<lambda>s1. Inr (free s1 obj)"] 2
    by (simp add: keeps_Inl)
qed

lemma keeps_write_obj_data_st:
  assumes "heap_inv M s" "M = MAX_BUF_SIZE e"
  shows "keeps M snd (write_obj_data_st e s obj src len)"
proof (cases "src = None \<or> len \<le> 0")
  case True
  with assms show ?thesis by (simp add: write_obj_data_st_def keeps_def)
next
  case False
  have "keeps M snd (ebind (deref s obj) (\<lambda>ob.
        ebind (write_obj_data (MAX_BUF_SIZE e) ob src len) (\<lambda>(r, ob', evs).
          Inr (r, emit (store s obj ob') evs))))"
  proof (rule keeps_deref)
    fix ob assume h: "heap s obj = Some ob"
    from heap_invD[OF assms(1) h] have bi: "buf_inv (MAX_BUF_SIZE e) ob" using assms(2) by simp
    from write_obj_data_inv[OF bi, of src len]
    show "keeps M snd (ebind (write_obj_data (MAX_BUF_SIZE e) ob src len) (\<lambda>(r, ob', evs).
          Inr (r, emit (store s obj ob') evs)))"
      using assms by (auto simp: keeps_def ebind_def heap_inv_emit split: sum.splits intro: heap_inv_store)
  qed
  with False show ?thesis by (auto simp: write_obj_data_st_def)
qed

lemma write_again_frame:
  "write_again M ob a rs = Inr (ob', evs) \<Longrightarrow>
     buf ob' = buf ob \<and> (bufInPtr ob' = bufInPtr ob \<or> bufInPtr ob' = 0)"
proof (induction rs arbitrary: evs)
  case Nil then show ?case by simp
next
  case (Cons r rs)
  show ?case
  proof (cases r)
    case (Wrote n)
    with Cons.prems show ?thesis by (auto simp: Let_def split: if_splits)
  next
    case (Failed en)
    with Cons show ?thesis
      by (cases en) (auto simp: Let_def split: sum.splits)
  qed
qed

lemma write_to_obj_locked_keeps:
  assumes "write_to_obj_locked M rs ob = Inr (ob', evs)" "buf_inv M ob"
  shows "buf_inv M ob'"
proof (cases "0 < write_avail M ob")
  case False
  with assms show ?thesis by (auto simp: write_to_obj_locked_def split: if_splits)
next
  case True
  with assms have w: "write_again M ob (write_avail M ob) rs = Inr (ob', evs)"
    and o: "bufOutPtr ob' < M"
    by (auto simp: write_to_obj_locked_def Let_def split: if_splits sum.splits)
  from write_again_frame[OF w] o assms(2) show ?thesis
    by (auto simp: buf_inv_def)
qed

lemma keeps_write_to_obj:
  assumes "heap_inv M s" "M = MAX_BUF_SIZE e"
  shows "keeps M (\<lambda>t. t) (write_to_obj e fuel rs s obj)"
  unfolding write_to_obj_def
proof (rule keeps_deref)
  fix ob assume h: "heap s obj = Some ob"
  from heap_invD[OF assms(1) h] have bi: "buf_inv M ob" .
  have inner: "keeps M (\<lambda>t. t)
          (let s1 = emit (store s obj ob1) evs
           in if gotEOF ob1 \<and> bufInPtr ob1 = bufOutPtr ob1 then close_obj e fuel s1 obj else Inr s1)"
    if "write_to_obj_locked M rs ob = Inr (ob1, evs)" for ob1 evs
  proof -
    from write_to_obj_locked_keeps[OF that bi] have "heap_inv M (emit (store s obj ob1) evs)"
      using assms(1) by (simp add: heap_inv_emit heap_inv_store)
    then show ?thesis by (auto simp: Let_def intro: keeps_close_obj keeps_Inr)
  qed
  show "keeps M (\<lambda>t. t)
          (if \<not> 0 \<le> fd ob then Inl (AssertFailed ''write_to_obj: fd'')
           else ebind (write_to_obj_locked (MAX_BUF_SIZE e) rs ob)
                 (\<lambda>(ob1, evs).
                     let s1 = emit (store s obj ob1) evs
                     in if gotEOF ob1 \<and> bufInPtr ob1 = bufOutPtr ob1 then close_obj e fuel s1 obj
                        else Inr s1))"
    using inner assms(2)
    by (cases "write_to_obj_locked M rs ob") (auto simp: keeps_Inl ebind_def)
qed

lemma keeps_write_readers:
  assumes "M = MAX_BUF_SIZE e"
  shows "heap_inv M s \<Longrightarrow> keeps M (\<lambda>t. t) (write_readers e s rdrs bytes)"
proof (induction rdrs arbitrary: s)
  case Nil
  then show ?case by (simp add: keeps_def)
next
  case (Cons reader rest)
  show ?case
    unfolding write_readers.simps
  proof (rule keeps_deref, rule keeps_bind[where pr = "\<lambda>t. t"])
    fix ro
    have "keeps M snd (write_obj_data_st e s reader (Some bytes) (int (length bytes)))"
      by (rule keeps_write_obj_data_st[OF Cons.prems assms])
    then have "keeps M (\<lambda>t. t) (ebind (write_obj_data_st e s reader (Some bytes) (int (length bytes)))
                 (\<lambda>(r, s'). Inr s'))"
      by (auto simp: keeps_def ebind_def split: sum.splits)
    with Cons.prems
    show "keeps M (\<lambda>t. t) (if \<not> gotEOF ro
            then ebind (write_obj_data_st e s reader (Some bytes) (int (length bytes))) (\<lambda>(r, s'). Inr s')
            else Inr s)"
      by (simp add: keeps_def)
  next
    fix ro x assume "heap_inv M x"
    then show "keeps M (\<lambda>t. t) (write_readers e x rest bytes)" by (rule Cons.IH)
  qed
qed

lemma keeps_read_from_obj:
  assumes "M = MAX_BUF_SIZE e" "heap_inv M s"
  shows "keeps M (\<lambda>t. t) (read_from_obj e fuel rds s obj)"
proof (induction rds)
  case Nil
  show ?case by (auto simp: keeps_def ebind_def deref_def split: option.splits)
next
  case (Cons r rds)
  show ?case
    unfolding read_from_obj.simps
  proof (rule keeps_deref)
    fix ob assume h: "heap s obj = Some ob"
    from heap_invD[OF assms(2) h] have bi: "buf_inv M ob" .
    have got: "keeps M (\<lambda>t. t)
             (let bytes = take (MAX_BUF_SIZE e - 1) bytes0 in
              if bytes = [] then close_obj e fuel s obj
              else
                ebind (if otype ob = SOCKET then
                         (if time_now e = - 1 then Inl (Fatal ''time() failed -- What time is it?'')
                          else Inr (store s obj (ob\<lparr>aux := Socket_aux (gotIAC (aux ob)) (time_now e)\<rparr>)))
                       else Inr s) (\<lambda>s1.
                  write_readers e s1 (readers ob) bytes))" for bytes0
    proof -
      have 1: "keeps M (\<lambda>t. t) (if otype ob = SOCKET then
                         (if time_now e = - 1 then Inl (Fatal ''time() failed -- What time is it?'')
                          else Inr (store s obj (ob\<lparr>aux := Socket_aux (gotIAC (aux ob)) (time_now e)\<rparr>)))
                       else Inr s)"
        using assms(2) bi by (simp add: keeps_def heap_inv_store)
      have 2: "keeps M (\<lambda>t. t) (ebind (if otype ob = SOCKET then
                         (if time_now e = - 1 then Inl (Fatal ''time() failed -- What time is it?'')
                          else Inr (store s obj (ob\<lparr>aux := Socket_aux (gotIAC (aux ob)) (time_now e)\<rparr>)))
                       else Inr s) (\<lambda>s1.
                  write_readers e s1 (readers ob) bytes))" for bytes
        by (rule keeps_bind[OF 1]) (rule keeps_write_readers[OF assms(1)])
      show ?thesis
        unfolding Let_def using 2 keeps_close_obj[OF assms(2)] by simp
    qed
    show "keeps M (\<lambda>t. t)
       (if \<not> 0 \<le> fd ob then Inl (AssertFailed ''read_from_obj: fd'')
        else case r of
           RFailed EINTR \<Rightarrow> read_from_obj e fuel rds s obj
         | RFailed EAGAIN \<Rightarrow> Inr s
         | RFailed EWOULDBLOCK \<Rightarrow> Inr s
         | RFailed EPIPE \<Rightarrow>
             Inl (Fatal (''read error on fd='' @ show_int (fd ob) @ '' ('' @ name ob @ '')''))
         | RFailed (EOTHER k) \<Rightarrow>
             Inl (Fatal (''read error on fd='' @ show_int (fd ob) @ '' ('' @ name ob @ '')''))
         | Got bytes0 \<Rightarrow>
             (let bytes = take (MAX_BUF_SIZE e - 1) bytes0 in
              if bytes = [] then close_obj e fuel s obj
              else
                ebind (if otype ob = SOCKET then
                         (if time_now e = - 1 then Inl (Fatal ''time() failed -- What time is it?'')
                          else Inr (store s obj (ob\<lparr>aux := Socket_aux (gotIAC (aux ob)) (time_now e)\<rparr>)))
                       else Inr s) (\<lambda>s1.
                  write_readers e s1 (readers ob) bytes)))"
    proof (cases r)
      case (Got bytes0)
      with got[of bytes0] show ?thesis by (simp add: keeps_Inl)
    next
      case (RFailed en)
      with Cons.IH assms(2) show ?thesis
        by (cases en) (auto simp: keeps_Inl keeps_Inr)
    qed
  qed
qed


lemma keeps_if:
  "(c \<Longrightarrow> keeps M pr a) \<Longrightarrow> (\<not> c \<Longrightarrow> keeps M pr b) \<Longrightarrow> keeps M pr (if c then a else b)"
  by simp

lemma keeps_strip: "keeps M snd m \<Longrightarrow> keeps M (\<lambda>t. t) (ebind m (\<lambda>(r, s'). Inr s'))"
  by (auto simp: keeps_def ebind_def split: sum.splits)

lemma keeps_open_obj:
  assumes "M = MAX_BUF_SIZE e" "heap_inv M s"
  shows "keeps M snd (open_obj e s obj)"
  unfolding open_obj_def Let_def
proof (rule keeps_deref)
  fix ob assume "heap (emit s [OpenObj obj]) obj = Some ob"
  then have h: "heap s obj = Some ob" by (simp add: emit_def)
  from heap_invD[OF assms(2) h] have bi: "buf_inv M ob" .
  have s0: "heap_inv M (emit s [OpenObj obj])" using assms(2) by (simp add: heap_inv_emit)
  have lg: "keeps M snd
          (case writer ob of
             None \<Rightarrow> Inl NullDeref
           | Some w \<Rightarrow>
               ebind (deref (emit s [OpenObj obj]) w) (\<lambda>wo.
                 if otype wo \<noteq> CONSOLE then Inl (AssertFailed ''open_obj: writer'')
                 else if open_result e (name ob) < 0
                      then Inr (- 1, emit (store (emit s [OpenObj obj]) obj (ob\<lparr>fd := open_result e (name ob)\<rparr>))
                                      [SysOpen (name ob)])
                      else ebind (write_obj_data_st e
                                   (emit (store (emit s [OpenObj obj]) obj (ob\<lparr>fd := open_result e (name ob)\<rparr>))
                                      [SysOpen (name ob)])
                                   obj
                                   (Some (log_header (name wo) (now_string e)))
                                   (int (length (log_header (name wo) (now_string e)))))
                             (\<lambda>(r, s2). Inr (0, s2))))"
  proof (cases "writer ob")
    case None
    then show ?thesis by (simp add: keeps_Inl)
  next
    case (Some w)
    let ?s1 = "emit (store (emit s [OpenObj obj]) obj (ob\<lparr>fd := open_result e (name ob)\<rparr>)) [SysOpen (name ob)]"
    have s1: "heap_inv M ?s1" using s0 bi by (simp add: heap_inv_emit heap_inv_store)
    have w: "keeps M snd (ebind (write_obj_data_st e ?s1 obj src len) (\<lambda>(r, s2). Inr (0, s2)))" for src len
      using keeps_write_obj_data_st[OF s1 assms(1), of obj src len]
      by (auto simp: keeps_def ebind_def split: sum.splits)
    show ?thesis
      unfolding Some option.case
      by (rule keeps_deref) (use s1 w in \<open>auto simp: keeps_Inl keeps_def\<close>)
  qed
  show "keeps M snd
         (if \<not> fd ob < 0 then Inl (AssertFailed ''open_obj: fd'')
          else if otype ob = CONSOLE then Inr (0, emit s [OpenObj obj])
          else if otype ob = LOGFILE then
            (case writer ob of
             None \<Rightarrow> Inl NullDeref
           | Some w \<Rightarrow>
               ebind (deref (emit s [OpenObj obj]) w) (\<lambda>wo.
                 if otype wo \<noteq> CONSOLE then Inl (AssertFailed ''open_obj: writer'')
                 else if open_result e (name ob) < 0
                      then Inr (- 1, emit (store (emit s [OpenObj obj]) obj (ob\<lparr>fd := open_result e (name ob)\<rparr>))
                                      [SysOpen (name ob)])
                      else ebind (write_obj_data_st e
                                   (emit (store (emit s [OpenObj obj]) obj (ob\<lparr>fd := open_result e (name ob)\<rparr>))
                                      [SysOpen (name ob)])
                                   obj
                                   (Some (log_header (name wo) (now_string e)))
                                   (int (length (log_header (name wo) (now_string e)))))
                             (\<lambda>(r, s2). Inr (0, s2))))
          else Inr (0, emit s [OpenObj obj]))"
    by (intro keeps_if keeps_Inl lg) (simp_all add: keeps_def s0)
qed

lemma keeps_steal_console:
  assumes M: "M = MAX_BUF_SIZE e" and inv: "heap_inv M s"
  shows "keeps M (\<lambda>t. t) (steal_console e fuel s src dst)"
  unfolding steal_console_def Let_def
proof (rule keeps_deref)
  fix d
  have st: "keeps M (\<lambda>t. t) (ebind (write_obj_data_st e s w src' len) (\<lambda>(r, s1). close_obj e fuel s1 w))"
    for w src' len
    using keeps_write_obj_data_st[OF inv M, of w src' len]
    by (auto simp: keeps_def ebind_def split: sum.splits dest: keeps_close_obj[unfolded keeps_def, rule_format])
  show "keeps M (\<lambda>t. t)
          (case writer d of
             None \<Rightarrow> Inr s
           | Some w \<Rightarrow>
               ebind (deref s src) (\<lambda>so.
                 if otype so \<noteq> SOCKET then Inl (AssertFailed ''create_obj_link: src'')
                 else if otype d \<noteq> CONSOLE then Inl (AssertFailed ''create_obj_link: dst'')
                 else ebind (deref s w) (\<lambda>wo.
                        if otype wo \<noteq> SOCKET then Inl (AssertFailed ''create_obj_link: writer'')
                        else ebind (write_obj_data_st e s w
                                     (Some (steal_notice (name d) (name so) (now_string e)))
                                     (int (length (steal_notice (name d) (name so) (now_string e)))))
                              (\<lambda>(r, s1). close_obj e fuel s1 w))))"
  proof (cases "writer d")
    case None
    with inv show ?thesis by (simp add: keeps_Inr)
  next
    case (Some w)
    show ?thesis unfolding Some option.case
      by (rule keeps_deref, simp add: keeps_Inl, intro impI, rule keeps_deref)
         (simp add: keeps_Inl st)
  qed
qed

lemma keeps_add_link:
  assumes "heap_inv M s"
  shows "keeps M (\<lambda>t. t) (add_link s src dst)"
  unfolding add_link_def Let_def
proof (rule keeps_deref, rule keeps_deref)
  fix d so
  assume h2: "heap s dst = Some d" and h3: "heap (store s dst (d\<lparr>writer := Some src\<rparr>)) src = Some so"
  let ?s3 = "store s dst (d\<lparr>writer := Some src\<rparr>)"
  have i3: "heap_inv M ?s3" using assms heap_invD[OF assms h2] by (simp add: heap_inv_store)
  have "heap_inv M (store ?s3 src (so\<lparr>readers := readers so @ [dst]\<rparr>))"
    using i3 heap_invD[OF i3 h3] by (simp add: heap_inv_store)
  then show "keeps M (\<lambda>t. t) (Inr (store ?s3 src (so\<lparr>readers := readers so @ [dst]\<rparr>)))"
    by (rule keeps_Inr)
qed

lemma keeps_ensure_active:
  assumes M: "M = MAX_BUF_SIZE e" and inv: "heap_inv M s"
  shows "keeps M (\<lambda>t. t) (ensure_active e s src dst)"
  unfolding ensure_active_def
proof (rule keeps_deref, rule keeps_bind[where pr = "\<lambda>t. t"])
  fix so
  show "keeps M (\<lambda>t. t) (if fd so < 0 then ebind (open_obj e s src) (\<lambda>(r, s'). Inr s') else Inr s)"
    using keeps_strip[OF keeps_open_obj[OF M inv]] inv by (simp add: keeps_Inr)
next
  fix so s5 assume i5: "heap_inv M s5"
  show "keeps M (\<lambda>t. t) (ebind (deref s5 dst) (\<lambda>d5.
                  if fd d5 < 0 then ebind (open_obj e s5 dst) (\<lambda>(r, s'). Inr s') else Inr s5))"
    by (rule keeps_deref) (use keeps_strip[OF keeps_open_obj[OF M i5]] i5 in \<open>simp add: keeps_Inr\<close>)
qed

lemma keeps_create_obj_link:
  assumes M: "M = MAX_BUF_SIZE e" and inv: "heap_inv M s"
  shows "keeps M (\<lambda>t. t) (create_obj_link e fuel s src dst)"
  unfolding create_obj_link_def
  by (rule keeps_bind[OF keeps_steal_console[OF M inv]], rule keeps_bind[OF keeps_add_link])
     (simp_all add: keeps_ensure_active[OF M])

lemma heap_inv_create_obj:
  assumes "0 < MAX_BUF_SIZE e" "heap_inv (MAX_BUF_SIZE e) s" "create_obj e s nm ty ax = (p, s')"
  shows "heap_inv (MAX_BUF_SIZE e) s'"
proof -
  from assms(3) have s': "s' = (store s (brk s)
          \<lparr>name = nm, fd = - 1, gotEOF = False, buf = map (heap_junk e) [0 ..< MAX_BUF_SIZE e],
           bufInPtr = 0, bufOutPtr = 0, writer = None, readers = [], otype = ty, aux = ax\<rparr>)
        \<lparr>brk := Suc (brk s)\<rparr>"
    by (auto simp: create_obj_def store_def Let_def)
  have "buf_inv (MAX_BUF_SIZE e)
          \<lparr>name = nm, fd = - 1, gotEOF = False, buf = map (heap_junk e) [0 ..< MAX_BUF_SIZE e],
           bufInPtr = 0, bufOutPtr = 0, writer = None, readers = [], otype = ty, aux = ax\<rparr>"
    using assms(1) by (simp add: buf_inv_def)
  from heap_inv_store[OF assms(2) this] show ?thesis
    unfolding s' by (simp add: heap_inv_def)
qed

lemma reachable_heap_inv:
  assumes pos: "0 < MAX_BUF_SIZE e"
  shows "reachable e s \<Longrightarrow> heap_inv (MAX_BUF_SIZE e) s"
proof (induction rule: reachable.induct)
  case r_init
  show ?case by (simp add: heap_inv_def init_state_def)
next
  case (r_console s nm dv lg rs b p s')
  then show ?case
    by (auto simp: create_console_obj_def split: if_splits intro: heap_inv_create_obj[OF pos])
next
  case (r_logfile s nm p s')
  then show ?case
    by (auto simp: create_logfile_obj_def intro: heap_inv_create_obj[OF pos])
next
  case (r_socket s user host sd p s')
  from r_socket.hyps(2) obtain p1 s1 ob where
    c: "create_obj e s (user @ ''@'' @ host) SOCKET (Socket_aux False (time_now e)) = (p1, s1)"
    and h: "heap s1 p1 = Some ob" and s': "s' = store s1 p1 (ob\<lparr>fd := sd\<rparr>)"
    by (auto simp: create_socket_obj_def Let_def split: if_splits prod.splits option.splits)
  from heap_inv_create_obj[OF pos r_socket.IH c] have i1: "heap_inv (MAX_BUF_SIZE e) s1" .
  from heap_invD[OF i1 h] i1 show ?case unfolding s' by (simp add: heap_inv_store)
next
  case (r_write_data s obj src len r s')
  from keeps_write_obj_data_st[OF r_write_data.IH refl, of obj src len] r_write_data.hyps(2)
  show ?case by (simp add: keeps_def)
next
  case (r_write_to s fuel ws obj s')
  from keeps_write_to_obj[OF r_write_to.IH refl, of fuel ws obj] r_write_to.hyps(2)
  show ?case by (simp add: keeps_def)
next
  case (r_read_from s fuel rds obj s')
  from keeps_read_from_obj[OF refl r_read_from.IH, of fuel rds obj] r_read_from.hyps(2)
  show ?case by (simp add: keeps_def)
next
  case (r_close s fuel obj s')
  from keeps_close_obj[OF r_close.IH, of e fuel obj] r_close.hyps(2)
  show ?case by (simp add: keeps_def)
next
  case (r_destroy s obj s')
  from keeps_destroy_obj[OF r_destroy.IH, of e obj] r_destroy.hyps(2)
  show ?case by (simp add: keeps_def)
next
  case (r_open s obj r s')
  from keeps_open_obj[OF refl r_open.IH, of obj] r_open.hyps(2)
  show ?case by (simp add: keeps_def)
next
  case (r_link s fuel src dst s')
  from keeps_create_obj_link[OF refl r_link.IH, of fuel src dst] r_link.hyps(2)
  show ?case by (simp add: keeps_def)
qed

lemma occupancy_bounds:
  assumes "bufInPtr ob < M" "bufOutPtr ob < M"
  shows "(occupancy M ob = 0 \<longleftrightarrow> bufInPtr ob = bufOutPtr ob) \<and> occupancy M ob \<le> M - 1"
proof -
  have M: "0 < M" using assms by simp
  have le: "occupancy M ob \<le> M - 1"
    using mod_less_divisor[OF M, of "bufInPtr ob + M - bufOutPtr ob"] by (simp add: occupancy_def)
  have "occupancy M ob = (if bufOutPtr ob \<le> bufInPtr ob then bufInPtr ob - bufOutPtr ob
                          else bufInPtr ob + M - bufOutPtr ob)"
    using assms by (auto simp: occupancy_def mod_if)
  then have "occupancy M ob = 0 \<longleftrightarrow> bufInPtr ob = bufOutPtr ob" using assms by auto
  with le show ?thesis by simp
qed

subsection \<open>Writes that fit, and what the steal leaves alone\<close>

lemma occupancy_eq:
  assumes "bufInPtr ob < M" "bufOutPtr ob < M"
  shows "occupancy M ob = (if bufOutPtr ob \<le> bufInPtr ob then bufInPtr ob - bufOutPtr ob
                          else bufInPtr ob + M - bufOutPtr ob)"
  using assms by (auto simp: occupancy_def mod_if)

lemma length_contents:
  assumes "buf_inv M ob"
  shows "length (contents ob) = occupancy M ob"
  using assms by (auto simp: contents_def occupancy_eq buf_inv_def)

lemma write_obj_data_fits:
  assumes inv: "buf_inv M ob" and L: "0 < length src" and fit: "occupancy M ob + length src < M"
  shows "\<exists>ob'. write_obj_data M ob (Some src) (int (length src)) = Inr (int (length src), ob', [])
           \<and> contents ob' = contents ob @ src
           \<and> occupancy M ob' = occupancy M ob + length src"
proof -
  define i where "i = bufInPtr ob"
  define out where "out = bufOutPtr ob"
  define L where "L = length src"
  from inv have io: "bufInPtr ob < M" "bufOutPtr ob < M" and lb: "length (buf ob) = M"
    by (auto simp: buf_inv_def)
  have occ: "occupancy M ob = (if out \<le> i then i - out else i + M - out)"
    using occupancy_eq[OF io] by (simp add: i_def out_def)
  have LM: "L < M" using fit by (simp add: L_def)
  have cl: "length src = clamp_len M (int (length src))"
    using LM by (simp add: clamp_len_def L_def)
  have av: "\<not> length src > code_avail M ob"
    using fit io occ by (auto simp: code_avail_def i_def out_def split: if_splits)
  have len: "0 < int (length src)" using L by simp
  define ob' where "ob' = ob\<lparr>buf := wrap_copy M (buf ob) (bufInPtr ob) src,
                   bufInPtr := (bufInPtr ob + length src) mod M\<rparr>"
  from write_obj_data_eq[OF io len cl] av
  have eq: "write_obj_data M ob (Some src) (int (length src)) = Inr (int (length src), ob', [])"
    by (simp add: ob'_def)
  have io': "bufInPtr ob' < M" "bufOutPtr ob' < M" using io by (simp_all add: ob'_def)
  have c: "contents ob' = contents ob @ src"
  proof (cases "out \<le> i")
    case False
    then have a: "i + L < out" "out < M" using fit occ io by (auto simp: out_def L_def)
    then have md: "(i + L) mod M = i + L" by simp
    have "length src \<le> M - i" using a by (simp add: L_def)
    then have wc: "wrap_copy M (buf ob) i src = take i (buf ob) @ src @ drop (i + L) (buf ob)"
      by (simp add: wrap_copy_def memcpy_at_def L_def)
    have d: "drop out (take i (buf ob) @ src @ drop (i + L) (buf ob)) = drop out (buf ob)"
      using a lb by (simp add: L_def)
    have t: "take (i + L) (take i (buf ob) @ src @ drop (i + L) (buf ob)) = take i (buf ob) @ src"
      using a lb by (simp add: L_def)
    show ?thesis
      using a False d t
      by (simp add: contents_def ob'_def i_def[symmetric] out_def[symmetric] L_def[symmetric] md wc)
  next
    case True
    have co: "contents ob = drop out (take i (buf ob))"
      using True by (simp add: contents_def i_def out_def drop_take)
    consider (nowrap) "i + L < M" | (edge) "i + L = M" | (wrap) "i + L > M" by linarith
    then show ?thesis
    proof cases
      case nowrap
      then have md: "(i + L) mod M = i + L" by simp
      have "length src \<le> M - i" using nowrap by (simp add: L_def)
      then have wc: "wrap_copy M (buf ob) i src = take i (buf ob) @ src @ drop (i + L) (buf ob)"
        by (simp add: wrap_copy_def memcpy_at_def L_def)
      have "take (i + L - out) (drop out (take i (buf ob) @ src @ drop (i + L) (buf ob)))
              = drop out (take i (buf ob)) @ src"
        using True nowrap lb io by (simp add: L_def i_def)
      then show ?thesis
        using True nowrap co
        by (simp add: contents_def ob'_def i_def[symmetric] out_def[symmetric] L_def[symmetric] md wc)
    next
      case edge
      then have md: "(i + L) mod M = 0" by simp
      have o: "0 < out" using fit occ True edge by (auto simp: L_def)
      have "length src \<le> M - i" using edge by (simp add: L_def)
      then have wc: "wrap_copy M (buf ob) i src = take i (buf ob) @ src"
        using edge lb by (simp add: wrap_copy_def memcpy_at_def L_def)
      have "drop out (take i (buf ob) @ src) = drop out (take i (buf ob)) @ src"
        using True lb io by (simp add: i_def)
      then show ?thesis
        using True edge co o
        by (simp add: contents_def ob'_def i_def[symmetric] out_def[symmetric] L_def[symmetric] md wc)
    next
      case wrap
      have "(i + L) mod M = (i + L - M) mod M" using wrap by (simp add: le_mod_geq)
      also have "\<dots> = i + L - M" using LM io by (simp add: i_def)
      finally have md: "(i + L) mod M = i + L - M" .
      have lt: "i + L - M < out" using fit occ True wrap by (auto simp: L_def)
      have iM: "i < M" using io by (simp add: i_def)
      have nle: "\<not> L \<le> M - i" using wrap iM by arith
      define b1 where "b1 = take i (buf ob) @ take (M - i) src"
      have m1: "memcpy_at (buf ob) i (take (M - i) src) = b1"
        using wrap lb iM by (simp add: memcpy_at_def L_def min_def b1_def)
      have lb1: "length b1 = M" using wrap lb iM by (simp add: L_def min_def b1_def)
      have ld: "length (drop (M - i) src) = i + L - M" using iM by (simp add: L_def)
      have wc: "wrap_copy M (buf ob) i src = drop (M - i) src @ drop (i + L - M) b1"
        using nle iM ld unfolding wrap_copy_def m1
        by (simp add: memcpy_at_def L_def)
      have tk: "take (i + L - M) (drop (M - i) src @ drop (i + L - M) b1) = drop (M - i) src"
        using ld by simp
      have "drop out (drop (M - i) src @ drop (i + L - M) b1) = drop (out - (i + L - M)) (drop (i + L - M) b1)"
        using ld lt by simp
      also have "\<dots> = drop out b1" using lt by simp
      also have "\<dots> = drop out (take i (buf ob)) @ take (M - i) src"
        using True lb iM by (simp add: b1_def)
      finally have dr: "drop out (drop (M - i) src @ drop (i + L - M) b1)
                          = drop out (take i (buf ob)) @ take (M - i) src" .
      have bo: "buf ob' = drop (M - i) src @ drop (i + L - M) b1"
        and inn: "bufInPtr ob' = i + L - M" and outt: "bufOutPtr ob' = out"
        by (simp_all add: ob'_def i_def[symmetric] out_def[symmetric] L_def[symmetric] md wc)
      have "contents ob' = drop out (buf ob') @ take (i + L - M) (buf ob')"
        unfolding contents_def inn outt using lt by simp
      also have "\<dots> = (drop out (take i (buf ob)) @ take (M - i) src) @ drop (M - i) src"
        by (simp only: bo dr tk)
      finally have "contents ob' = drop out (take i (buf ob)) @ take (M - i) src @ drop (M - i) src"
        by simp
      then show ?thesis using co by simp
    qed
  qed
  have lw: "length (buf ob') = M"
    using lb io LM by (auto simp: ob'_def wrap_copy_def length_memcpy_at L_def min_def)
  have "buf_inv M ob'" using io' lw by (simp add: buf_inv_def)
  from length_contents[OF this] length_contents[OF inv] c
  have "occupancy M ob' = occupancy M ob + length src" by simp
  with eq c show ?thesis by blast
qed

text \<open>
  A write into a buffer that is not empty and that the new bytes fill to the last byte:
  lines 476 to 482 count that byte as free, nothing is reported, and the input pointer
  comes to rest on the output pointer.
\<close>

lemma write_obj_data_exact_fill:
  assumes inv: "buf_inv M ob" and P: "0 < occupancy M ob" and L: "0 < length src"
    and full: "occupancy M ob + length src = M"
  shows "\<exists>ob'. write_obj_data M ob (Some src) (int (length src)) = Inr (int (length src), ob', [])
           \<and> bufInPtr ob' = bufOutPtr ob' \<and> occupancy M ob' = 0 \<and> contents ob' = []"
proof -
  define i where "i = bufInPtr ob"
  define out where "out = bufOutPtr ob"
  from inv have io: "bufInPtr ob < M" "bufOutPtr ob < M"
    by (auto simp: buf_inv_def)
  have occ: "occupancy M ob = (if out \<le> i then i - out else i + M - out)"
    using occupancy_eq[OF io] by (simp add: i_def out_def)
  have LM: "length src < M" using full P by simp
  have cl: "length src = clamp_len M (int (length src))"
    using LM by (simp add: clamp_len_def)
  have ne: "out \<noteq> i" using P occ by auto
  have av: "\<not> length src > code_avail M ob"
    using full io occ ne by (auto simp: code_avail_def i_def out_def split: if_splits)
  have len: "0 < int (length src)" using L by simp
  define ob' where "ob' = ob\<lparr>buf := wrap_copy M (buf ob) (bufInPtr ob) src,
                   bufInPtr := (bufInPtr ob + length src) mod M\<rparr>"
  from write_obj_data_eq[OF io len cl] av
  have eq: "write_obj_data M ob (Some src) (int (length src)) = Inr (int (length src), ob', [])"
    by (simp add: ob'_def)
  have md: "(i + length src) mod M = out"
  proof (cases "out \<le> i")
    case True
    with full occ io have "i + length src = M + out" by (simp add: i_def out_def)
    moreover have "out < M" using io by (simp add: out_def)
    ultimately show ?thesis by simp
  next
    case False
    with full occ io have "i + length src = out" by (simp add: i_def out_def)
    moreover have "out < M" using io by (simp add: out_def)
    ultimately show ?thesis by simp
  qed
  have same: "bufInPtr ob' = bufOutPtr ob'"
    using md by (simp add: ob'_def i_def out_def)
  have "bufOutPtr ob' < M" using io by (simp add: ob'_def)
  with same have "occupancy M ob' = 0" by (simp add: occupancy_def)
  moreover from same have "contents ob' = []" by (simp add: contents_def)
  ultimately show ?thesis using eq same by blast
qed

lemma write_obj_data_frame:
  assumes "write_obj_data M ob src len = Inr (r, ob', evs)"
  shows "fd ob' = fd ob \<and> writer ob' = writer ob \<and> readers ob' = readers ob
         \<and> otype ob' = otype ob \<and> name ob' = name ob \<and> gotEOF ob' = gotEOF ob
         \<and> (\<forall>ev\<in>set evs. \<exists>l m. ev = LogMsg l m)"
proof (cases "src = None \<or> len \<le> 0")
  case True
  with assms show ?thesis by (auto simp: write_obj_data_def split: option.splits)
next
  case False
  then obtain bytes where src: "src = Some bytes" and len: "0 < len" by auto
  have "bufInPtr ob < M \<and> bufOutPtr ob < M"
  proof (rule ccontr)
    assume "\<not> (bufInPtr ob < M \<and> bufOutPtr ob < M)"
    then have "write_obj_data M ob (Some bytes) len = Inl (AssertFailed ''write_obj_data: entry'')"
      using len by (simp add: write_obj_data_def Let_def)
    with assms src show False by simp
  qed
  then have io: "bufInPtr ob < M" "bufOutPtr ob < M" by simp_all
  define L where "L = clamp_len M len"
  have L': "(if len \<ge> int M then nat (int M - 1) else nat len) = L"
    by (auto simp: L_def clamp_len_def)
  have "L \<le> length bytes"
  proof (rule ccontr)
    assume "\<not> L \<le> length bytes"
    then have "length bytes < L" by simp
    then have "write_obj_data M ob (Some bytes) len = Inl BadRead"
      using io len by (simp add: write_obj_data_def L' Let_def)
    with assms src show False by simp
  qed
  from write_obj_data_eq[OF io len L_def this] assms src
  show ?thesis by (auto split: if_splits)
qed

lemma write_obj_data_st_frame:
  assumes "write_obj_data_st e s obj src len = Inr (r, s1)"
  shows "(\<forall>q ob. heap s q = Some ob \<longrightarrow>
            (\<exists>ob'. heap s1 q = Some ob' \<and> fd ob' = fd ob \<and> writer ob' = writer ob
                   \<and> readers ob' = readers ob \<and> otype ob' = otype ob \<and> name ob' = name ob))
         \<and> (\<forall>q. q \<noteq> obj \<longrightarrow> heap s1 q = heap s q)
         \<and> (\<exists>evs. trace s1 = trace s @ evs \<and> (\<forall>ev\<in>set evs. \<exists>l m. ev = LogMsg l m))"
proof (cases "src = None \<or> len \<le> 0")
  case True
  with assms have "s1 = s" by (auto simp: write_obj_data_st_def)
  then show ?thesis by simp
next
  case False
  with assms have "ebind (deref s obj) (\<lambda>ob.
        ebind (write_obj_data (MAX_BUF_SIZE e) ob src len) (\<lambda>(r, ob', evs).
          Inr (r, emit (store s obj ob') evs))) = Inr (r, s1)"
    by (auto simp: write_obj_data_st_def)
  then obtain ob where d: "deref s obj = Inr ob"
    and b: "ebind (write_obj_data (MAX_BUF_SIZE e) ob src len) (\<lambda>(r, ob', evs).
          Inr (r, emit (store s obj ob') evs)) = Inr (r, s1)"
    by (rule ebind_InrE)
  from b obtain x where w: "write_obj_data (MAX_BUF_SIZE e) ob src len = Inr x"
    and x: "(case x of (r, ob', evs) \<Rightarrow>
          Inr (r, emit (store s obj ob') evs)) = (Inr (r, s1) :: error + int \<times> state)"
    by (rule ebind_InrE)
  obtain r' ob' evs where xx: "x = (r', ob', evs)" by (cases x)
  from x xx have s1: "s1 = emit (store s obj ob') evs" by simp
  from d have h: "heap s obj = Some ob" by (simp add: deref_Inr)
  from write_obj_data_frame[OF w[unfolded xx]] h
  show ?thesis unfolding s1 by (auto simp: emit_def store_def)
qed

lemma open_obj_frame:
  assumes "open_obj e s obj = Inr (r, s')"
  shows "(\<forall>q ob. heap s q = Some ob \<longrightarrow>
            (\<exists>ob'. heap s' q = Some ob' \<and> writer ob' = writer ob \<and> readers ob' = readers ob))
         \<and> (\<forall>q. q \<noteq> obj \<longrightarrow> heap s' q = heap s q)
         \<and> (\<exists>evs. trace s' = trace s @ OpenObj obj # evs)"
proof -
  let ?s0 = "emit s [OpenObj obj]"
  from assms obtain ob where d: "deref ?s0 obj = Inr ob"
    and b: "(if \<not> fd ob < 0 then Inl (AssertFailed ''open_obj: fd'')
        else if otype ob = CONSOLE then Inr (0, ?s0)
        else if otype ob = LOGFILE then
          (case writer ob of
             None \<Rightarrow> Inl NullDeref
           | Some w \<Rightarrow>
               ebind (deref ?s0 w) (\<lambda>wo.
                 if otype wo \<noteq> CONSOLE then Inl (AssertFailed ''open_obj: writer'')
                 else
                   let newfd = open_result e (name ob);
                       s1 = emit (store ?s0 obj (ob\<lparr>fd := newfd\<rparr>)) [SysOpen (name ob)]
                   in if newfd < 0 then Inr (- 1, s1)
                      else
                        let str = log_header (name wo) (now_string e)
                        in ebind (write_obj_data_st e s1 obj (Some str) (int (length str)))
                             (\<lambda>(r, s2). Inr (0, s2))))
        else Inr (0, ?s0)) = Inr (r, s')"
    unfolding open_obj_def Let_def by (rule ebind_InrE) (simp add: Let_def)
  from d have h: "heap s obj = Some ob" by (simp add: deref_Inr emit_def)
  have triv: ?thesis if "s' = ?s0"
    unfolding that by (simp add: emit_def)
  show ?thesis
  proof (cases "otype ob = LOGFILE \<and> fd ob < 0")
    case False
    with b have "s' = ?s0" by (cases "otype ob") (auto split: if_splits)
    then show ?thesis by (rule triv)
  next
    case True
    with b obtain w where w: "writer ob = Some w" by (cases "writer ob") auto
    let ?s1 = "emit (store ?s0 obj (ob\<lparr>fd := open_result e (name ob)\<rparr>)) [SysOpen (name ob)]"
    have f1: "(\<forall>q ob0. heap s q = Some ob0 \<longrightarrow>
            (\<exists>ob'. heap ?s1 q = Some ob' \<and> writer ob' = writer ob0 \<and> readers ob' = readers ob0))
         \<and> (\<forall>q. q \<noteq> obj \<longrightarrow> heap ?s1 q = heap s q)
         \<and> trace ?s1 = trace s @ [OpenObj obj, SysOpen (name ob)]"
      using h by (auto simp: emit_def store_def)
    from b[unfolded Let_def] True w have "ebind (deref ?s0 w) (\<lambda>wo.
           if otype wo \<noteq> CONSOLE then Inl (AssertFailed ''open_obj: writer'')
           else if open_result e (name ob) < 0 then Inr (- 1, ?s1)
                else ebind (write_obj_data_st e ?s1 obj
                              (Some (log_header (name wo) (now_string e)))
                              (int (length (log_header (name wo) (now_string e)))))
                             (\<lambda>(r, s2). Inr (0, s2))) = Inr (r, s')"
      by simp
    then obtain wo :: obj where
      c: "(if otype wo \<noteq> CONSOLE then Inl (AssertFailed ''open_obj: writer'')
           else if open_result e (name ob) < 0 then Inr (- 1, ?s1)
                else ebind (write_obj_data_st e ?s1 obj
                              (Some (log_header (name wo) (now_string e)))
                              (int (length (log_header (name wo) (now_string e)))))
                             (\<lambda>(r, s2). Inr (0, s2))) = Inr (r, s')"
      by (rule ebind_InrE)
    show ?thesis
    proof (cases "open_result e (name ob) < 0")
      case True
      with c have "s' = ?s1" by (auto split: if_splits)
      with f1 show ?thesis by auto
    next
      case False
      with c have "ebind (write_obj_data_st e ?s1 obj
                              (Some (log_header (name wo) (now_string e)))
                              (int (length (log_header (name wo) (now_string e)))))
                             (\<lambda>(r, s2). Inr (0, s2)) = (Inr (r, s') :: error + int \<times> state)"
        by (auto split: if_splits)
      then obtain x where
        wd: "write_obj_data_st e ?s1 obj
                              (Some (log_header (name wo) (now_string e)))
                              (int (length (log_header (name wo) (now_string e)))) = Inr x"
        and x': "(case x of (r, s2) \<Rightarrow> Inr (0, s2)) = (Inr (r, s') :: error + int \<times> state)"
        by (rule ebind_InrE)
      from x' have x: "snd x = s'" by (cases x) simp
      obtain r1 where xx: "x = (r1, s')" using x by (cases x) auto
      from write_obj_data_st_frame[OF wd[unfolded xx]]
      have f2: "(\<forall>q ob. heap ?s1 q = Some ob \<longrightarrow>
            (\<exists>ob'. heap s' q = Some ob' \<and> writer ob' = writer ob \<and> readers ob' = readers ob))"
        and f3: "(\<forall>q. q \<noteq> obj \<longrightarrow> heap s' q = heap ?s1 q)"
        and f4: "(\<exists>evs. trace s' = trace ?s1 @ evs)"
        by blast+
      from f1 f2 have g1: "\<forall>q ob. heap s q = Some ob \<longrightarrow>
            (\<exists>ob'. heap s' q = Some ob' \<and> writer ob' = writer ob \<and> readers ob' = readers ob)"
        by (metis (no_types, lifting))
      from f1 f3 have g2: "\<forall>q. q \<noteq> obj \<longrightarrow> heap s' q = heap s q" by simp
      from f1 f4 have g3: "\<exists>evs. trace s' = trace s @ OpenObj obj # evs" by auto
      from g1 g2 g3 show ?thesis by blast
    qed
  qed
qed


lemma ebind_deref_Some: "heap s p = Some ob \<Longrightarrow> ebind (deref s p) f = f ob"
  by (simp add: ebind_def deref_def)

lemma steal_console_Inr:
  assumes "heap s dst = Some d" "writer d = Some w" "steal_console e fuel s src dst = Inr s2"
  shows "\<exists>so wo r s1. heap s src = Some so \<and> otype so = SOCKET \<and> otype d = CONSOLE
            \<and> heap s w = Some wo \<and> otype wo = SOCKET
            \<and> write_obj_data_st e s w (Some (steal_notice (name d) (name so) (now_string e)))
                 (int (length (steal_notice (name d) (name so) (now_string e)))) = Inr (r, s1)
            \<and> close_obj e fuel s1 w = Inr s2"
proof -
  from assms have a: "ebind (deref s src) (\<lambda>so.
             if otype so \<noteq> SOCKET then Inl (AssertFailed ''create_obj_link: src'')
             else if otype d \<noteq> CONSOLE then Inl (AssertFailed ''create_obj_link: dst'')
             else
               ebind (deref s w) (\<lambda>wo.
                 if otype wo \<noteq> SOCKET then Inl (AssertFailed ''create_obj_link: writer'')
                 else
                   ebind (write_obj_data_st e s w (Some (steal_notice (name d) (name so) (now_string e)))
                            (int (length (steal_notice (name d) (name so) (now_string e))))) (\<lambda>(r, s1).
                     close_obj e fuel s1 w))) = Inr s2"
    unfolding steal_console_def Let_def by (simp add: ebind_deref_Some)
  then obtain so :: obj where so: "deref s src = Inr so"
    and b: "(if otype so \<noteq> SOCKET then Inl (AssertFailed ''create_obj_link: src'')
             else if otype d \<noteq> CONSOLE then Inl (AssertFailed ''create_obj_link: dst'')
             else
               ebind (deref s w) (\<lambda>wo.
                 if otype wo \<noteq> SOCKET then Inl (AssertFailed ''create_obj_link: writer'')
                 else
                   ebind (write_obj_data_st e s w (Some (steal_notice (name d) (name so) (now_string e)))
                            (int (length (steal_notice (name d) (name so) (now_string e))))) (\<lambda>(r, s1).
                     close_obj e fuel s1 w))) = Inr s2"
    by (rule ebind_InrE)
  from b have t1: "otype so = SOCKET" and t2: "otype d = CONSOLE"
    by (auto split: if_splits)
  with b have "ebind (deref s w) (\<lambda>wo.
                 if otype wo \<noteq> SOCKET then Inl (AssertFailed ''create_obj_link: writer'')
                 else
                   ebind (write_obj_data_st e s w (Some (steal_notice (name d) (name so) (now_string e)))
                            (int (length (steal_notice (name d) (name so) (now_string e))))) (\<lambda>(r, s1).
                     close_obj e fuel s1 w)) = Inr s2"
    by simp
  then obtain wo :: obj where wo: "deref s w = Inr wo"
    and c: "(if otype wo \<noteq> SOCKET then Inl (AssertFailed ''create_obj_link: writer'')
                 else
                   ebind (write_obj_data_st e s w (Some (steal_notice (name d) (name so) (now_string e)))
                            (int (length (steal_notice (name d) (name so) (now_string e))))) (\<lambda>(r, s1).
                     close_obj e fuel s1 w)) = Inr s2"
    by (rule ebind_InrE)
  from c have t3: "otype wo = SOCKET" by (auto split: if_splits)
  with c have "ebind (write_obj_data_st e s w (Some (steal_notice (name d) (name so) (now_string e)))
                            (int (length (steal_notice (name d) (name so) (now_string e))))) (\<lambda>(r, s1).
                     close_obj e fuel s1 w) = Inr s2"
    by simp
  then obtain x where wd: "write_obj_data_st e s w (Some (steal_notice (name d) (name so) (now_string e)))
                            (int (length (steal_notice (name d) (name so) (now_string e)))) = Inr x"
    and cl: "(case x of (r, s1) \<Rightarrow> close_obj e fuel s1 w) = Inr s2"
    by (rule ebind_InrE)
  obtain r s1 where x: "x = (r, s1)" by (cases x)
  from so wo t1 t2 t3 wd cl x show ?thesis
    by (auto simp: deref_Inr)
qed

lemma add_link_Inr:
  assumes "add_link s src dst = Inr s4"
  shows "(\<exists>d so. heap s4 dst = Some d \<and> writer d = Some src
                  \<and> heap s4 src = Some so \<and> dst \<in> set (readers so))
         \<and> trace s4 = trace s
         \<and> (\<forall>q ob. heap s q = Some ob \<longrightarrow> (\<exists>ob'. heap s4 q = Some ob' \<and> fd ob' = fd ob))"
proof -
  from assms obtain d :: obj where d: "deref s dst = Inr d"
    and b: "ebind (deref (store s dst (d\<lparr>writer := Some src\<rparr>)) src) (\<lambda>so.
         Inr (store (store s dst (d\<lparr>writer := Some src\<rparr>)) src (so\<lparr>readers := readers so @ [dst]\<rparr>)))
       = Inr s4"
    unfolding add_link_def Let_def by (rule ebind_InrE)
  from b obtain so :: obj where so: "deref (store s dst (d\<lparr>writer := Some src\<rparr>)) src = Inr so"
    and s4: "Inr (store (store s dst (d\<lparr>writer := Some src\<rparr>)) src (so\<lparr>readers := readers so @ [dst]\<rparr>))
       = (Inr s4 :: error + state)"
    by (rule ebind_InrE)
  from s4 have s4': "s4 = store (store s dst (d\<lparr>writer := Some src\<rparr>)) src (so\<lparr>readers := readers so @ [dst]\<rparr>)"
    by simp
  from d have hd: "heap s dst = Some d" by (simp add: deref_Inr)
  from so have hs: "(if src = dst then Some (d\<lparr>writer := Some src\<rparr>) else heap s src) = Some so"
    by (auto simp: deref_Inr store_def)
  show ?thesis
    using hd hs unfolding s4' by (auto simp: store_def split: if_splits)
qed

lemma ensure_active_Inr:
  assumes "ensure_active e s src dst = Inr s'"
  shows "(\<forall>q ob. heap s q = Some ob \<longrightarrow>
            (\<exists>ob'. heap s' q = Some ob' \<and> writer ob' = writer ob \<and> readers ob' = readers ob))
         \<and> (\<exists>evs. trace s' = trace s @ evs
               \<and> (\<forall>so. heap s src = Some so \<and> fd so < 0 \<longrightarrow> OpenObj src \<in> set evs)
               \<and> (\<forall>d. heap s dst = Some d \<and> fd d < 0 \<longrightarrow> OpenObj dst \<in> set evs))"
proof -
  from assms obtain so :: obj where so: "deref s src = Inr so"
    and b: "ebind (if fd so < 0 then ebind (open_obj e s src) (\<lambda>(r, s'). Inr s') else Inr s) (\<lambda>s5.
     ebind (deref s5 dst) (\<lambda>d5.
       if fd d5 < 0 then ebind (open_obj e s5 dst) (\<lambda>(r, s'). Inr s') else Inr s5)) = Inr s'"
    unfolding ensure_active_def by (rule ebind_InrE)
  from b obtain s5 where o1: "(if fd so < 0 then ebind (open_obj e s src) (\<lambda>(r, s'). Inr s') else Inr s) = Inr s5"
    and c: "ebind (deref s5 dst) (\<lambda>d5.
       if fd d5 < 0 then ebind (open_obj e s5 dst) (\<lambda>(r, s'). Inr s') else Inr s5) = Inr s'"
    by (rule ebind_InrE)
  from c obtain d5 :: obj where d5: "deref s5 dst = Inr d5"
    and o2: "(if fd d5 < 0 then ebind (open_obj e s5 dst) (\<lambda>(r, s'). Inr s') else Inr s5) = Inr s'"
    by (rule ebind_InrE)
  from so have hs: "heap s src = Some so" by (simp add: deref_Inr)
  from d5 have h5: "heap s5 dst = Some d5" by (simp add: deref_Inr)
  have step1: "(\<forall>q ob. heap s q = Some ob \<longrightarrow>
            (\<exists>ob'. heap s5 q = Some ob' \<and> writer ob' = writer ob \<and> readers ob' = readers ob))
         \<and> (\<forall>q. q \<noteq> src \<longrightarrow> heap s5 q = heap s q)
         \<and> (\<exists>evs. trace s5 = trace s @ evs \<and> (fd so < 0 \<longrightarrow> OpenObj src \<in> set evs))"
  proof (cases "fd so < 0")
    case False
    with o1 have "s5 = s" by simp
    with False show ?thesis by simp
  next
    case True
    with o1 have "ebind (open_obj e s src) (\<lambda>(r, s'). Inr s') = Inr s5" by simp
    then obtain x where x: "open_obj e s src = Inr x" and "(case x of (r, s') \<Rightarrow> Inr s') = (Inr s5 :: error + state)"
      by (rule ebind_InrE)
    then obtain r where "open_obj e s src = Inr (r, s5)" by (cases x) auto
    from open_obj_frame[OF this] show ?thesis by auto
  qed
  have step2: "(\<forall>q ob. heap s5 q = Some ob \<longrightarrow>
            (\<exists>ob'. heap s' q = Some ob' \<and> writer ob' = writer ob \<and> readers ob' = readers ob))
         \<and> (\<exists>evs. trace s' = trace s5 @ evs \<and> (fd d5 < 0 \<longrightarrow> OpenObj dst \<in> set evs))"
  proof (cases "fd d5 < 0")
    case False
    with o2 have "s' = s5" by simp
    with False show ?thesis by simp
  next
    case True
    with o2 have "ebind (open_obj e s5 dst) (\<lambda>(r, s'). Inr s') = Inr s'" by simp
    then obtain x where x: "open_obj e s5 dst = Inr x" and "(case x of (r, s') \<Rightarrow> Inr s') = (Inr s' :: error + state)"
      by (rule ebind_InrE)
    then obtain r where "open_obj e s5 dst = Inr (r, s')" by (cases x) auto
    from open_obj_frame[OF this] show ?thesis by auto
  qed
  from step1 obtain evs1 where e1: "trace s5 = trace s @ evs1" "fd so < 0 \<longrightarrow> OpenObj src \<in> set evs1"
    by blast
  from step2 obtain evs2 where e2: "trace s' = trace s5 @ evs2" "fd d5 < 0 \<longrightarrow> OpenObj dst \<in> set evs2"
    by blast
  have g: "\<forall>q ob. heap s q = Some ob \<longrightarrow>
            (\<exists>ob'. heap s' q = Some ob' \<and> writer ob' = writer ob \<and> readers ob' = readers ob)"
  proof (intro allI impI)
    fix q ob assume "heap s q = Some ob"
    with step1 obtain ob5 where "heap s5 q = Some ob5" "writer ob5 = writer ob" "readers ob5 = readers ob"
      by blast
    moreover from this step2 obtain ob' where "heap s' q = Some ob'" "writer ob' = writer ob5"
      "readers ob' = readers ob5" by blast
    ultimately show "\<exists>ob'. heap s' q = Some ob' \<and> writer ob' = writer ob \<and> readers ob' = readers ob"
      by simp
  qed
  have t: "trace s' = trace s @ (evs1 @ evs2)" using e1 e2 by simp
  have a1: "\<forall>so'. heap s src = Some so' \<and> fd so' < 0 \<longrightarrow> OpenObj src \<in> set (evs1 @ evs2)"
    using hs e1 by auto
  have a2: "\<forall>d. heap s dst = Some d \<and> fd d < 0 \<longrightarrow> OpenObj dst \<in> set (evs1 @ evs2)"
  proof (intro allI impI)
    fix d assume d: "heap s dst = Some d \<and> fd d < 0"
    show "OpenObj dst \<in> set (evs1 @ evs2)"
    proof (cases "dst = src")
      case True
      with d hs e1 show ?thesis by auto
    next
      case False
      with step1 have "heap s5 dst = heap s dst" by simp
      with d h5 have "fd d5 < 0" by simp
      with e2 show ?thesis by simp
    qed
  qed
  from g t a1 a2 show ?thesis by blast
qed


lemma add_link_alive:
  assumes "add_link s src dst = Inr s4"
  shows "(\<exists>so. heap s src = Some so) \<and> (\<exists>d. heap s dst = Some d)"
proof -
  from assms obtain d :: obj where d: "deref s dst = Inr d"
    and b: "ebind (deref (store s dst (d\<lparr>writer := Some src\<rparr>)) src) (\<lambda>so.
         Inr (store (store s dst (d\<lparr>writer := Some src\<rparr>)) src (so\<lparr>readers := readers so @ [dst]\<rparr>)))
       = Inr s4"
    unfolding add_link_def Let_def by (rule ebind_InrE)
  from b obtain so :: obj where so: "deref (store s dst (d\<lparr>writer := Some src\<rparr>)) src = Inr so"
    by (rule ebind_InrE)
  from d so show ?thesis by (auto simp: deref_Inr store_def split: if_splits)
qed

lemma close_obj_trace:
  assumes "close_obj e fuel s obj = Inr s'"
  shows "\<exists>evs. trace s' = trace s @ CloseObj obj # evs"
proof -
  from assms obtain k where fuel: "fuel = Suc k" by (cases fuel) auto
  from close_obj_Suc_teardown[OF assms[unfolded fuel]]
  obtain s4 where r: "close_rel (emit s [CloseObj obj]) s4" and t: "close_teardown e s4 obj = Inr s'"
    by blast
  from okres_InrD[OF okres_close_teardown t] have "close_rel s4 s'" .
  with r show ?thesis by (auto simp: close_rel_def emit_def)
qed

lemma write_obj_data_st_Inr:
  assumes "src \<noteq> None" "0 < len" "write_obj_data_st e s obj src len = Inr (r, s1)"
  shows "\<exists>ob ob' evs. heap s obj = Some ob
           \<and> write_obj_data (MAX_BUF_SIZE e) ob src len = Inr (r, ob', evs)
           \<and> s1 = emit (store s obj ob') evs"
proof -
  from assms have "ebind (deref s obj) (\<lambda>ob.
        ebind (write_obj_data (MAX_BUF_SIZE e) ob src len) (\<lambda>(r, ob', evs).
          Inr (r, emit (store s obj ob') evs))) = Inr (r, s1)"
    by (auto simp: write_obj_data_st_def)
  then obtain ob :: obj where d: "deref s obj = Inr ob"
    and b: "ebind (write_obj_data (MAX_BUF_SIZE e) ob src len) (\<lambda>(r, ob', evs).
          Inr (r, emit (store s obj ob') evs)) = Inr (r, s1)"
    by (rule ebind_InrE)
  from b obtain x where w: "write_obj_data (MAX_BUF_SIZE e) ob src len = Inr x"
    and x: "(case x of (r, ob', evs) \<Rightarrow>
          Inr (r, emit (store s obj ob') evs)) = (Inr (r, s1) :: error + int \<times> state)"
    by (rule ebind_InrE)
  obtain r' ob' evs where xx: "x = (r', ob', evs)" by (cases x)
  from x xx have "r' = r" "s1 = emit (store s obj ob') evs" by simp_all
  with d w xx show ?thesis by (auto simp: deref_Inr)
qed

subsection \<open>The port through the parser\<close>


lemma port_rel_lx [simp]: "port_rel (p\<lparr>lx := l\<rparr>) q = port_rel p q"
  by (simp add: port_rel_def)









text \<open>The loop of \<open>parse_console_directive\<close> changes nothing but the lexer.\<close>

lemma console_name_only_lx: "only_lx p (fst (snd (console_name e p v)))"
proof -
  obtain t1 l1 t2 l2 where n: "lex_next (lx p) = (t1, l1)" "lex_next l1 = (t2, l2)"
    by (rule lex_next_two)
  show ?thesis by (simp add: console_name_def n only_lx_def)
qed

lemma console_dev_only_lx: "only_lx p (fst (snd (console_dev e p v)))"
proof -
  obtain t1 l1 t2 l2 where n: "lex_next (lx p) = (t1, l1)" "lex_next l1 = (t2, l2)"
    by (rule lex_next_two)
  show ?thesis by (simp add: console_dev_def n only_lx_def)
qed

lemma console_log_only_lx: "only_lx p (fst (snd (console_log e p v)))"
proof -
  obtain t1 l1 t2 l2 where n: "lex_next (lx p) = (t1, l1)" "lex_next l1 = (t2, l2)"
    by (rule lex_next_two)
  show ?thesis by (simp add: console_log_def n only_lx_def)
qed

lemma console_bps_only_lx: "only_lx p (fst (snd (console_bps e p v)))"
proof -
  obtain t1 l1 t2 l2 where n: "lex_next (lx p) = (t1, l1)" "lex_next l1 = (t2, l2)"
    by (rule lex_next_two)
  show ?thesis by (simp add: console_bps_def n only_lx_def Let_def)
qed

lemma only_lx_trans: "only_lx p q \<Longrightarrow> only_lx q r \<Longrightarrow> only_lx p r"
  by (simp add: only_lx_def)

lemma only_lx_upd [simp]: "only_lx (p\<lparr>lx := l\<rparr>) q = only_lx p q"
  by (simp add: only_lx_def)

lemma console_step_only_lx: "only_lx p (fst (snd (snd (console_step e p v))))"
proof -
  obtain t l where n: "lex_next (lx p) = (t, l)" by (cases "lex_next (lx p)")
  have same: "only_lx p (p\<lparr>lx := l\<rparr>)" by (simp add: only_lx_def)
  show ?thesis
    unfolding console_step_def n Let_def prod.case
    using same console_name_only_lx[of "p\<lparr>lx := l\<rparr>" e v] console_dev_only_lx[of "p\<lparr>lx := l\<rparr>" e v]
      console_log_only_lx[of "p\<lparr>lx := l\<rparr>" e v] console_bps_only_lx[of "p\<lparr>lx := l\<rparr>" e v]
    by simp
qed





subsection \<open>The parser returns\<close>

lemma lex_next_prev: "lex_prev (snd (lex_next l)) = fst (lex_next l)"
  by (simp add: lex_next_def split: list.splits)





subsection \<open>What the directive parsers report\<close>

lemma quiet_refl: "quiet p p"
  by (simp add: quiet_def)

lemma quiet_trans: "quiet p q \<Longrightarrow> quiet q r \<Longrightarrow> quiet p r"
  by (simp add: quiet_def)

lemma quiet_lx [simp]: "quiet (p\<lparr>lx := l\<rparr>) q = quiet p q"
  by (simp add: quiet_def)

lemma only_lx_quiet: "only_lx p q \<Longrightarrow> quiet p q"
  by (simp add: only_lx_def quiet_def)

lemma server_on_off_quiet:
  assumes "\<And>b c. filename (f b c) = filename c"
  shows "quiet p (snd (server_on_off e k f p))"
proof -
  obtain t1 l1 t2 l2 where n: "lex_next (lx p) = (t1, l1)" "lex_next l1 = (t2, l2)"
    by (rule lex_next_two)
  show ?thesis by (simp add: server_on_off_def n quiet_def assms)
qed

lemma server_reserved_quiet: "quiet p (snd (server_reserved e k p))"
proof -
  obtain t1 l1 where n: "lex_next (lx p) = (t1, l1)" by (cases "lex_next (lx p)")
  show ?thesis by (simp add: server_reserved_def n quiet_def Let_def)
qed

lemma server_port_quiet: "quiet p (snd (server_port e p))"
proof -
  obtain t1 l1 t2 l2 where n: "lex_next (lx p) = (t1, l1)" "lex_next l1 = (t2, l2)"
    by (rule lex_next_two)
  show ?thesis by (simp add: server_port_def n quiet_def Let_def)
qed

lemma server_step_quiet: "quiet p (snd (snd (server_step e p)))"
proof -
  obtain t l where n: "lex_next (lx p) = (t, l)" by (cases "lex_next (lx p)")
  have sub: "quiet p (snd (server_on_off e SERVER_CONF_KEEPALIVE (\<lambda>b c. c\<lparr>enableKeepAlive := b\<rparr>) (p\<lparr>lx := l\<rparr>)))"
    "quiet p (snd (server_on_off e SERVER_CONF_LOOPBACK (\<lambda>b c. c\<lparr>enableLoopBack := b\<rparr>) (p\<lparr>lx := l\<rparr>)))"
    "quiet p (snd (server_reserved e k (p\<lparr>lx := l\<rparr>)))"
    "quiet p (snd (server_port e (p\<lparr>lx := l\<rparr>)))" for k
    using server_on_off_quiet[of "\<lambda>b c. c\<lparr>enableKeepAlive := b\<rparr>" "p\<lparr>lx := l\<rparr>" e SERVER_CONF_KEEPALIVE]
      server_on_off_quiet[of "\<lambda>b c. c\<lparr>enableLoopBack := b\<rparr>" "p\<lparr>lx := l\<rparr>" e SERVER_CONF_LOOPBACK]
      server_reserved_quiet[of "p\<lparr>lx := l\<rparr>" e k] server_port_quiet[of "p\<lparr>lx := l\<rparr>" e]
    by simp_all
  have same: "quiet p (p\<lparr>lx := l\<rparr>)" by (simp add: quiet_def)
  show ?thesis
    unfolding server_step_def n Let_def prod.case
    using sub same by simp
qed

text \<open>A turn that sets \<open>done\<close> has just read the end of a line or of the file.\<close>

lemma server_step_done:
  assumes "server_step e p = (True, err, p')"
  shows "err = [] \<and> (lex_prev (lx p') = LEX_EOL \<or> lex_prev (lx p') = LEX_EOF)"
proof -
  obtain t l where n: "lex_next (lx p) = (t, l)" by (cases "lex_next (lx p)")
  from lex_next_prev[of "lx p"] n have pv: "lex_prev l = t" by simp
  from assms show ?thesis
    unfolding server_step_def n Let_def prod.case
    using pv by (auto split: if_splits)
qed

lemma console_step_done:
  assumes "console_step e p v = (True, err, p', v')"
  shows "err = [] \<and> (lex_prev (lx p') = LEX_EOL \<or> lex_prev (lx p') = LEX_EOF)"
proof -
  obtain t l where n: "lex_next (lx p) = (t, l)" by (cases "lex_next (lx p)")
  from lex_next_prev[of "lx p"] n have pv: "lex_prev l = t" by simp
  from assms show ?thesis
    unfolding console_step_def n Let_def prod.case
    using pv by (auto split: if_splits)
qed

lemma server_loop_report:
  "quiet p (snd (server_loop e p))
   \<and> (fst (server_loop e p) = []
        \<longrightarrow> lex_prev (lx (snd (server_loop e p))) = LEX_EOL
            \<or> lex_prev (lx (snd (server_loop e p))) = LEX_EOF)"
proof (induction e p rule: server_loop.induct)
  case (1 e p)
  obtain d err p' where s: "server_step e p = (d, err, p')" by (cases "server_step e p")
  from server_step_quiet[of p e] s have st: "quiet p p'" by simp
  show ?case
  proof (cases "\<not> d \<and> err = []")
    case True
    with s have "server_loop e p = server_loop e p'" by (subst server_loop.simps) simp
    with 1[OF s[symmetric] refl True] st show ?thesis by (auto intro: quiet_trans)
  next
    case False
    with s have r: "server_loop e p = (err, p')" by (subst server_loop.simps) auto
    have "err = [] \<longrightarrow> lex_prev (lx p') = LEX_EOL \<or> lex_prev (lx p') = LEX_EOF"
    proof
      assume "err = []"
      with False have d by simp
      with s server_step_done[of e p err p'] show "lex_prev (lx p') = LEX_EOL \<or> lex_prev (lx p') = LEX_EOF"
        by simp
    qed
    with r st show ?thesis by simp
  qed
qed

lemma console_loop_report:
  "only_lx p (fst (snd (console_loop e p v)))
   \<and> (fst (console_loop e p v) = []
        \<longrightarrow> lex_prev (lx (fst (snd (console_loop e p v)))) = LEX_EOL
            \<or> lex_prev (lx (fst (snd (console_loop e p v)))) = LEX_EOF)"
proof (induction e p v rule: console_loop.induct)
  case (1 e p v)
  obtain d err p' v' where s: "console_step e p v = (d, err, p', v')"
    by (cases "console_step e p v") auto
  from console_step_only_lx[of p e v] s have st: "only_lx p p'" by simp
  show ?case
  proof (cases "\<not> d \<and> err = []")
    case True
    with s have "console_loop e p v = console_loop e p' v'" by (subst console_loop.simps) simp
    with 1[OF s[symmetric] refl refl True] st show ?thesis by (auto intro: only_lx_trans)
  next
    case False
    with s have r: "console_loop e p v = (err, p', v')" by (subst console_loop.simps) auto
    have "err = [] \<longrightarrow> lex_prev (lx p') = LEX_EOL \<or> lex_prev (lx p') = LEX_EOF"
    proof
      assume "err = []"
      with False have d by simp
      with s console_step_done[of e p v err p' v']
      show "lex_prev (lx p') = LEX_EOL \<or> lex_prev (lx p') = LEX_EOF" by simp
    qed
    with r st show ?thesis by simp
  qed
qed

lemma resync_prev: "lex_prev (resync l) = LEX_EOL \<or> lex_prev (resync l) = LEX_EOF"
proof (induction l rule: resync.induct)
  case (1 l)
  show ?case
  proof (cases "lex_prev l \<noteq> LEX_EOL \<and> lex_prev l \<noteq> LEX_EOF")
    case True
    then have "resync l = resync (snd (lex_next l))" by (subst resync.simps) simp
    with 1[OF True] show ?thesis by simp
  next
    case False
    then have "resync l = l" by (subst resync.simps) auto
    with False show ?thesis by auto
  qed
qed

text \<open>
  Every return of a directive parser leaves the lexer just behind the end of a line
  (or of the file) and standard output untouched; standard error has gained either
  nothing or the one line that reports \<open>err\<close>, exactly when \<open>err\<close> is not empty.
\<close>

lemma parse_server_directive_report:
  assumes "parse_server_directive e p = Inr p'"
  shows "stdout p' = stdout p
       \<and> (lex_prev (lx p') = LEX_EOL \<or> lex_prev (lx p') = LEX_EOF)
       \<and> stderr p' = stderr p @
           (if fst (server_loop e p) = [] then []
            else [error_line (filename (conf p)) (lex_line (lx (snd (server_loop e p))))
                    (fst (server_loop e p))])"
proof -
  obtain err p1 where s: "server_loop e p = (err, p1)" by (cases "server_loop e p")
  from server_loop_report[of p e] s have q: "quiet p p1"
    and pv: "err = [] \<longrightarrow> lex_prev (lx p1) = LEX_EOL \<or> lex_prev (lx p1) = LEX_EOF"
    by simp_all
  from assms obtain dv where dv: "directive_of (lx p) = Inr dv"
    by (cases "directive_of (lx p)") (simp_all add: parse_server_directive_def ebind_def)
  show ?thesis
  proof (cases "err = []")
    case True
    with assms s dv have "p' = p1" by (simp add: parse_server_directive_def ebind_def)
    with True s q pv show ?thesis by (simp add: quiet_def)
  next
    case False
    with assms s dv have "p' = p1\<lparr>stderr := stderr p1 @ [error_line (filename (conf p1)) (lex_line (lx p1)) err],
                                    lx := resync (lx p1)\<rparr>"
      by (simp add: parse_server_directive_def ebind_def)
    with False s q resync_prev[of "lx p1"] show ?thesis by (simp add: quiet_def)
  qed
qed

lemma parse_console_directive_report:
  assumes "parse_console_directive e p = Inr p'"
  shows "stdout p' = stdout p
       \<and> (lex_prev (lx p') = LEX_EOL \<or> lex_prev (lx p') = LEX_EOF)
       \<and> (stderr p' = stderr p
            \<or> (\<exists>msg. msg \<noteq> [] \<and> stderr p' = stderr p @
                  [error_line (filename (conf p))
                     (lex_line (lx (fst (snd (console_loop e p
                         \<lparr>l_name = [], l_dev = [], l_log = [], l_bps = DEFAULT_CONSOLE_BAUD e\<rparr>))))) msg]))"
proof -
  let ?v0 = "\<lparr>l_name = [], l_dev = [], l_log = [], l_bps = DEFAULT_CONSOLE_BAUD e\<rparr>"
  obtain err0 p1 v where s: "console_loop e p ?v0 = (err0, p1, v)"
    by (cases "console_loop e p ?v0") auto
  from console_loop_report[of p e ?v0] s have o: "only_lx p p1"
    and pv: "err0 = [] \<longrightarrow> lex_prev (lx p1) = LEX_EOL \<or> lex_prev (lx p1) = LEX_EOF"
    by simp_all
  from assms obtain dv where dv: "directive_of (lx p) = Inr dv"
    by (cases "directive_of (lx p)") (simp_all add: parse_console_directive_def ebind_def)
  define err where "err = (if err0 = [] \<and> (l_name v = [] \<or> l_dev v = [])
                  then snprintf (MAX_LINE e) (incomplete_directive dv) else err0)"
  show ?thesis
  proof (cases "err = []")
    case True
    then have e0: "err0 = []" by (auto simp: err_def split: if_splits)
    from assms True have "lx p' = lx p1 \<and> stdout p' = stdout p1 \<and> stderr p' = stderr p1"
      unfolding parse_console_directive_def dv ebind_def sum.case s prod.case Let_def err_def[symmetric]
      by (auto split: option.splits if_splits)
    with e0 pv o s show ?thesis by (simp add: only_lx_def)
  next
    case False
    with assms have "p' = p1\<lparr>stderr := stderr p1 @ [error_line (filename (conf p1)) (lex_line (lx p1)) err],
                              lx := resync (lx p1)\<rparr>"
      unfolding parse_console_directive_def dv ebind_def sum.case s prod.case Let_def err_def[symmetric]
      by simp
    with False o s resync_prev[of "lx p1"] show ?thesis by (auto simp: only_lx_def)
  qed
qed

text \<open>
  The main loop itself reports on standard output: a token that starts no directive
  and is not the end of a line adds one line there and none to standard error.
\<close>

lemma conf_switch_top_level:
  assumes "t \<noteq> LEX_TOK SERVER_CONF_CONSOLE" "t \<noteq> LEX_TOK SERVER_CONF_SERVER" "t \<noteq> LEX_EOL"
  shows "\<exists>p' msg. conf_switch e t p = Inr p' \<and> stderr p' = stderr p
           \<and> stdout p' = stdout p @ [error_line (filename (conf p)) (lex_line (lx p)) msg]"
proof (cases "t = LEX_ERR")
  case True
  with assms show ?thesis by (auto simp: conf_switch_def intro: exI[of _ "''unmatched quote''"])
next
  case False
  with assms show ?thesis
    by (auto simp: conf_switch_def intro: exI[of _ "unrecognized_token (lex_text (lx p))"])
qed

subsection \<open>The parser on the tokens\<close>

lemma after_eol_Nil [simp]: "after_eol [] = []"
  by (simp add: after_eol_def)

lemma after_eol_Cons [simp]: "after_eol ((t, x, n) # r) = (if t = LEX_EOL then r else after_eol r)"
  by (simp add: after_eol_def)

lemma no_eof_Nil [simp]: "no_eof []"
  by (simp add: no_eof_def)

lemma no_eof_Cons [simp]: "no_eof ((t, x, n) # r) = (t \<noteq> LEX_EOF \<and> no_eof r)"
  by (simp add: no_eof_def)




lemma messages_not_Nil [simp]:
  "expected_eq k \<noteq> []" "expected_string k \<noteq> []" "expected_integer k \<noteq> []"
  "expected_on_off k \<noteq> []" "invalid_value k i \<noteq> []" "not_implemented k \<noteq> []"
  "unrecognized_token x \<noteq> []" "incomplete_directive x \<noteq> []"
  by (simp_all add: expected_eq_def expected_string_def expected_integer_def expected_on_off_def
        invalid_value_def not_implemented_def unrecognized_token_def incomplete_directive_def)


lemma sets_ports_Nil:
  "port_sets p' = port_sets p \<Longrightarrow> port (conf p') = port (conf p) \<Longrightarrow> sets_ports p [] p'"
  by (simp add: sets_ports_def)


lemma sets_ports_lx [simp]: "sets_ports (p\<lparr>lx := l\<rparr>) xs q = sets_ports p xs q"
  by (simp add: sets_ports_def)

lemma opt_step_lx [simp]: "opt_step a (p\<lparr>lx := l\<rparr>) ts d err q = opt_step a p ts d err q"
  by (simp add: opt_step_def)





















subsection \<open>The ports of a file, line by line\<close>

lemma spec_server_ports_line:
  "spec_server_ports a (takeWhile (\<lambda>(t, x, n). t \<noteq> LEX_EOL) ts) = spec_server_ports a ts"
proof (induction a ts rule: spec_server_ports.induct)
  case (1 a k kx kn q qx qn v x n r)
  let ?ok1 = "(k = LEX_TOK SERVER_CONF_KEEPALIVE \<or> k = LEX_TOK SERVER_CONF_LOOPBACK)
         \<and> q = LEX_CHAR CHR ''='' \<and> (v = LEX_TOK SERVER_CONF_ON \<or> v = LEX_TOK SERVER_CONF_OFF)"
  let ?ok2 = "k = LEX_TOK SERVER_CONF_PORT \<and> q = LEX_CHAR CHR ''='' \<and> (v = LEX_STR \<or> v = LEX_INT)
              \<and> 0 < a x"
  show ?case
  proof (cases ?ok1)
    case True
    with "1.IH"(1) show ?thesis by auto
  next
    case n1: False
    show ?thesis
    proof (cases ?ok2)
      case True
      with n1 "1.IH"(2) show ?thesis by auto
    next
      case False
      with n1 show ?thesis by auto
    qed
  qed
qed (auto split: prod.splits)

lemma err_ends_line_tl: "err_ends_line (a # r) \<Longrightarrow> err_ends_line r"
  by (cases a; cases r) auto

lemma err_ends_line_after_eol: "err_ends_line ts \<Longrightarrow> err_ends_line (after_eol ts)"
proof (induction ts)
  case Nil
  then show ?case by simp
next
  case (Cons a r)
  obtain t x n where a: "a = (t, x, n)" by (cases a)
  from Cons.prems have "err_ends_line r" by (rule err_ends_line_tl)
  with Cons.IH a show ?case by simp
qed

lemma spec_ports_by_lines_Nil [simp]: "spec_ports_by_lines a [] = []"
  by (simp add: spec_ports_by_lines_def lines_of.simps)

lemma spec_ports_by_lines_Cons:
  "spec_ports_by_lines a ((t, x, n) # r) =
     (if t = LEX_EOL then spec_ports_by_lines a r
      else if t = LEX_TOK SERVER_CONF_SERVER then spec_server_ports a r @ spec_ports_by_lines a (after_eol r)
      else spec_ports_by_lines a (after_eol r))"
  by (simp add: spec_ports_by_lines_def lines_of.simps spec_line_ports_def spec_server_ports_line)

text \<open>
  Where every unmatched quote ends its line, the ports that \<open>spec_file_ports\<close> finds are the
  ports of the lines of the file, taken one line at a time.
\<close>

lemma spec_file_ports_by_lines:
  "err_ends_line ts \<Longrightarrow> spec_file_ports a ts = spec_ports_by_lines a ts"
proof (induction a ts rule: spec_file_ports.induct)
  case (1 a)
  show ?case by (simp add: spec_file_ports.simps)
next
  case (2 a t x n r)
  from "2.prems" have er: "err_ends_line r" by (rule err_ends_line_tl)
  then have ea: "err_ends_line (after_eol r)" by (rule err_ends_line_after_eol)
  consider (s) "t = LEX_TOK SERVER_CONF_SERVER" | (l) "t = LEX_EOL" | (q) "t = LEX_ERR"
    | (o) "t \<noteq> LEX_TOK SERVER_CONF_SERVER" "t \<noteq> LEX_EOL" "t \<noteq> LEX_ERR" by blast
  then show ?case
  proof cases
    case s
    with "2.IH"(1)[OF s ea] show ?thesis by (simp add: spec_file_ports.simps spec_ports_by_lines_Cons)
  next
    case l
    with "2.IH"(2)[OF _ _ er] show ?thesis by (simp add: spec_file_ports.simps spec_ports_by_lines_Cons)
  next
    case q
    from q "2.IH"(2)[OF _ _ er] have f: "spec_file_ports a ((t, x, n) # r) = spec_ports_by_lines a r"
      by (simp add: spec_file_ports.simps)
    show ?thesis
    proof (cases r)
      case Nil
      with f q show ?thesis by (simp add: spec_ports_by_lines_Cons)
    next
      case (Cons b r')
      obtain t' x' n' where b: "b = (t', x', n')" by (cases b)
      from "2.prems" q Cons b have "t' = LEX_EOL" by simp
      with f q Cons b show ?thesis by (simp add: spec_ports_by_lines_Cons)
    qed
  next
    case o
    with "2.IH"(3)[OF o(1) _ ea] show ?thesis by (simp add: spec_file_ports.simps spec_ports_by_lines_Cons)
  qed
qed

text \<open>
  With a \<open>MAX_LINE\<close> of 1 every message is cut to nothing, and the parser, which takes
  an empty message for no error, reads on behind the token it could not recognize:
  the port of \<open>bogus.conf\<close> is set although its directive is in error.
\<close>

lemma short_messages_hide_errors:
  "(case process_server_conf_file short_conf_env (parse_start (create_server_conf ''bogus.conf'')) of
      Inr p' \<Rightarrow> port (conf p') = 7777 \<and> stderr p' = [] \<and> stdout p' = []
    | Inl x \<Rightarrow> False)
   \<and> spec_file_ports (atoi short_conf_env) (conf_tokens short_conf_env (create_server_conf ''bogus.conf'')) = []"
  by code_simp

section \<open>Degenerate writes\<close>

text \<open>
  C9: with a null source or a non-positive length, \<open>write_obj_data\<close> returns 0 and the
  object (its buffer, both indices and \<open>gotEOF\<close> included) is unchanged; no event is
  emitted.
\<close>

theorem write_obj_data_degenerate:
  "src = None \<or> len \<le> 0 \<Longrightarrow> write_obj_data M ob src len = Inr (0, ob, [])"
  by (auto simp: write_obj_data_def split: option.splits)

theorem write_obj_data_degenerate_witness:
  "write_obj_data 8 sock3 None 4 = Inr (0, sock3, [])
   \<and> write_obj_data 8 sock3 (Some ''xyz'') (- 1) = Inr (0, sock3, [])"
  using write_obj_data_degenerate [of None 4 8 sock3]
        write_obj_data_degenerate [of "Some ''xyz''" "- 1" 8 sock3]
  by simp

section \<open>A write that exactly fills the buffer\<close>

text \<open>
  C1: a write of \<open>L\<close> bytes into a buffer holding \<open>P\<close> bytes is claimed to leave
  \<open>min (P + L) (MAX_BUF_SIZE - 1)\<close> bytes, the last bytes of the old content followed
  by the source.  With \<open>MAX_BUF_SIZE = 8\<close>, \<open>P = 3\<close> and \<open>L = 5\<close> the claim promises the
  seven bytes \<open>BC12345\<close>.  The code computes five free bytes, does not see an overrun,
  and moves \<open>bufInPtr\<close> onto \<open>bufOutPtr\<close>: the call returns 5, logs nothing, and leaves
  a buffer that reads as empty.
\<close>

theorem write_obj_data_exact_fill_empties:
  "write_obj_data 8 sock3 (Some ''12345'') 5
     = Inr (5, sock3\<lparr>buf := ''ABC12345'', bufInPtr := 0, bufOutPtr := 0\<rparr>, [])
   \<and> occupancy 8 sock3 = 3 \<and> contents sock3 = ''ABC''
   \<and> occupancy 8 (sock3\<lparr>buf := ''ABC12345'', bufInPtr := 0, bufOutPtr := 0\<rparr>) = 0
   \<and> contents (sock3\<lparr>buf := ''ABC12345'', bufInPtr := 0, bufOutPtr := 0\<rparr>) = []"
  by (simp add: write_obj_data_def sock3_def memcpy_at_def occupancy_def contents_def Let_def)

section \<open>The dispatch of write_to_obj\<close>

text \<open>
  C6: for an object with a non-empty contiguous run, the critical section of
  \<open>write_to_obj\<close> offers to \<open>write\<close> the bytes from \<open>bufOutPtr\<close> up to \<open>bufInPtr\<close>, or
  up to the end of the array when the content wraps around.  On \<open>EINTR\<close> the same
  write is issued again (the rest of the run is the run on the remaining results);
  on \<open>EPIPE\<close> \<open>gotEOF\<close> is set and both indices go to 0; \<open>EAGAIN\<close> and
  \<open>EWOULDBLOCK\<close> change nothing; any other error is fatal; a positive count \<open>n\<close>
  moves \<open>bufOutPtr\<close> to \<open>(bufOutPtr + n) mod MAX_BUF_SIZE\<close> and changes nothing else.
  Except on \<open>EINTR\<close>, exactly one write is issued.
\<close>

theorem write_to_obj_dispatch:
  assumes "buf_inv M ob" and "0 < write_avail M ob"
  shows "let run = take (write_avail M ob) (drop (bufOutPtr ob) (buf ob));
             ev = SysWrite (fd ob) run
         in run = (if bufOutPtr ob \<le> bufInPtr ob then contents ob else drop (bufOutPtr ob) (buf ob))
          \<and> write_to_obj_locked M (Failed EINTR # rs) ob =
              (case write_to_obj_locked M rs ob of
                 Inl err \<Rightarrow> Inl err
               | Inr (ob', evs) \<Rightarrow> Inr (ob', ev # evs))
          \<and> write_to_obj_locked M (Failed EPIPE # rs) ob =
              Inr (ob\<lparr>gotEOF := True, bufInPtr := 0, bufOutPtr := 0\<rparr>, [ev])
          \<and> write_to_obj_locked M (Failed EAGAIN # rs) ob = Inr (ob, [ev])
          \<and> write_to_obj_locked M (Failed EWOULDBLOCK # rs) ob = Inr (ob, [ev])
          \<and> (\<exists>msg. write_to_obj_locked M (Failed (EOTHER k) # rs) ob = Inl (Fatal msg))
          \<and> (0 < n \<and> n \<le> write_avail M ob \<longrightarrow>
               write_to_obj_locked M (Wrote n # rs) ob =
                 Inr (ob\<lparr>bufOutPtr := (bufOutPtr ob + n) mod M\<rparr>, [ev]))"
proof -
  from assms have io: "bufInPtr ob < M" "bufOutPtr ob < M" "length (buf ob) = M"
    by (auto simp: buf_inv_def)
  have run: "take (write_avail M ob) (drop (bufOutPtr ob) (buf ob))
      = (if bufOutPtr ob \<le> bufInPtr ob then contents ob else drop (bufOutPtr ob) (buf ob))"
    using io by (simp add: write_avail_def contents_def)
  have eintr: "write_to_obj_locked M (Failed EINTR # rs) ob =
              (case write_to_obj_locked M rs ob of
                 Inl err \<Rightarrow> Inl err
               | Inr (ob', evs) \<Rightarrow> Inr (ob', SysWrite (fd ob) (take (write_avail M ob) (drop (bufOutPtr ob) (buf ob))) # evs))"
    using io assms(2) by (simp add: write_to_obj_locked_def Let_def split: sum.splits)
  have wrote: "write_to_obj_locked M (Wrote n # rs) ob =
                 Inr (ob\<lparr>bufOutPtr := (bufOutPtr ob + n) mod M\<rparr>, [SysWrite (fd ob) (take (write_avail M ob) (drop (bufOutPtr ob) (buf ob)))])"
    if "0 < n" "n \<le> write_avail M ob"
  proof -
    have "bufOutPtr ob + n \<le> M" using that io by (auto simp: write_avail_def split: if_splits)
    then show ?thesis using io assms(2) that
      by (auto simp: write_to_obj_locked_def Let_def)
  qed
  show ?thesis
    unfolding Let_def
    apply (intro conjI)
    subgoal by (rule run)
    subgoal by (rule eintr)
    subgoal using io assms(2) by (simp add: write_to_obj_locked_def Let_def)
    subgoal using io assms(2) by (simp add: write_to_obj_locked_def Let_def)
    subgoal using io assms(2) by (simp add: write_to_obj_locked_def Let_def)
    subgoal using io assms(2) by (simp add: write_to_obj_locked_def Let_def)
    subgoal using wrote by blast
    done
qed


theorem write_to_obj_dispatch_witness:
  "buf_inv 8 sock3 \<and> 0 < write_avail 8 sock3
   \<and> write_to_obj_locked 8 [Failed EINTR, Wrote 2] sock3
       = Inr (sock3\<lparr>bufOutPtr := 2\<rparr>, [SysWrite 5 ''ABC'', SysWrite 5 ''ABC''])
   \<and> write_to_obj_locked 8 [Failed EPIPE] sock3
       = Inr (sock3\<lparr>gotEOF := True, bufInPtr := 0, bufOutPtr := 0\<rparr>, [SysWrite 5 ''ABC''])
   \<and> write_to_obj_locked 8 [Failed EAGAIN] sock3 = Inr (sock3, [SysWrite 5 ''ABC''])
   \<and> write_to_obj_locked 8 [Failed EWOULDBLOCK] sock3 = Inr (sock3, [SysWrite 5 ''ABC''])
   \<and> (\<exists>msg. write_to_obj_locked 8 [Failed (EOTHER 5)] sock3 = Inl (Fatal msg))
   \<and> write_to_obj_locked 8 [Wrote 3] sock3 = Inr (sock3\<lparr>bufOutPtr := 3\<rparr>, [SysWrite 5 ''ABC''])"
proof -
  have h: "buf_inv 8 sock3" "0 < write_avail 8 sock3"
    by (simp_all add: buf_inv_def write_avail_def sock3_def)
  note d1 = write_to_obj_dispatch [OF h, of "[Wrote 2]" 5 3]
  note d2 = write_to_obj_dispatch [OF h, of "[]" 5 2]
  have w2: "write_to_obj_locked 8 [Wrote 2] sock3
       = Inr (sock3\<lparr>bufOutPtr := 2\<rparr>, [SysWrite 5 ''ABC''])"
    using d2 by (simp add: Let_def write_avail_def sock3_def)
  have e: "write_to_obj_locked 8 [Failed EINTR, Wrote 2] sock3
       = Inr (sock3\<lparr>bufOutPtr := 2\<rparr>, [SysWrite 5 ''ABC'', SysWrite 5 ''ABC''])"
    using d1 w2 by (simp add: Let_def write_avail_def sock3_def)
  have w3: "write_to_obj_locked 8 [Wrote 3] sock3
       = Inr (sock3\<lparr>bufOutPtr := 3\<rparr>, [SysWrite 5 ''ABC''])"
    using write_to_obj_dispatch [OF h, of "[]" 5 3]
    by (simp add: Let_def write_avail_def sock3_def)
  have rest: "write_to_obj_locked 8 [Failed EPIPE] sock3
       = Inr (sock3\<lparr>gotEOF := True, bufInPtr := 0, bufOutPtr := 0\<rparr>, [SysWrite 5 ''ABC''])
   \<and> write_to_obj_locked 8 [Failed EAGAIN] sock3 = Inr (sock3, [SysWrite 5 ''ABC''])
   \<and> write_to_obj_locked 8 [Failed EWOULDBLOCK] sock3 = Inr (sock3, [SysWrite 5 ''ABC''])
   \<and> (\<exists>msg. write_to_obj_locked 8 [Failed (EOTHER 5)] sock3 = Inl (Fatal msg))"
    using d2 by (simp add: Let_def write_avail_def sock3_def)
  show ?thesis using h e w3 rest by simp
qed

section \<open>The teardown step of close_obj and the call from write_to_obj\<close>

text \<open>
  When \<open>close_obj\<close> reaches its last step with a non-empty buffer, it sets \<open>gotEOF\<close>
  and changes nothing else (the descriptor stays as it is, no \<open>close\<close> is issued).
  With an empty buffer it clears \<open>gotEOF\<close>, closes an open descriptor and sets \<open>fd\<close> to
  \<open>-1\<close>, and destroys the object exactly when it is a socket; other objects stay in
  the store.  \<open>write_to_obj\<close> calls \<open>close_obj\<close> exactly when, after the critical
  section, \<open>gotEOF\<close> is set and the buffer is empty; if it returns from that call, the
  object is either a destroyed socket or has \<open>gotEOF\<close> cleared and no descriptor.
\<close>

theorem close_obj_teardown_cases:
  assumes "heap s obj = Some ob"
  shows "(bufInPtr ob \<noteq> bufOutPtr ob \<longrightarrow>
            close_teardown e s obj = Inr (store s obj (ob\<lparr>gotEOF := True\<rparr>)))
   \<and> (bufInPtr ob = bufOutPtr ob \<and> \<not> (0 \<le> fd ob \<and> close_fails e (fd ob)) \<longrightarrow>
        (\<exists>s'. close_teardown e s obj = Inr s'
            \<and> trace s' = trace s @ (if 0 \<le> fd ob then [SysClose (fd ob)] else [])
                 @ (if otype ob = SOCKET
                    then [DestroyObj obj (bufInPtr ob) (bufOutPtr ob) (if 0 \<le> fd ob then - 1 else fd ob)]
                    else [])
            \<and> heap s' obj = (if otype ob = SOCKET then None
                              else Some (ob\<lparr>gotEOF := False, fd := (if 0 \<le> fd ob then - 1 else fd ob)\<rparr>))
            \<and> (\<forall>q. q \<noteq> obj \<longrightarrow> heap s' q = heap s q)))
   \<and> (0 \<le> fd ob \<and> write_to_obj_locked (MAX_BUF_SIZE e) rs ob = Inr (ob1, evs) \<longrightarrow>
        CloseObj obj \<notin> set evs
        \<and> write_to_obj e fuel rs s obj =
            (if gotEOF ob1 \<and> bufInPtr ob1 = bufOutPtr ob1
             then close_obj e fuel (emit (store s obj ob1) evs) obj
             else Inr (emit (store s obj ob1) evs))
        \<and> (\<forall>s'. gotEOF ob1 \<and> bufInPtr ob1 = bufOutPtr ob1
                 \<and> write_to_obj e fuel rs s obj = Inr s' \<longrightarrow>
             (\<exists>evs'. trace s' = trace s @ evs @ CloseObj obj # evs')
             \<and> (case heap s' obj of
                  None \<Rightarrow> otype ob = SOCKET
                | Some ob' \<Rightarrow> otype ob \<noteq> SOCKET \<and> \<not> gotEOF ob' \<and> fd ob' < 0)))"
proof (intro conjI impI)
  assume "bufInPtr ob \<noteq> bufOutPtr ob"
  with assms show "close_teardown e s obj = Inr (store s obj (ob\<lparr>gotEOF := True\<rparr>))"
    by (rule close_teardown_nonempty)
next
  assume "bufInPtr ob = bufOutPtr ob \<and> \<not> (0 \<le> fd ob \<and> close_fails e (fd ob))"
  with assms show "\<exists>s'. close_teardown e s obj = Inr s'
            \<and> trace s' = trace s @ (if 0 \<le> fd ob then [SysClose (fd ob)] else [])
                 @ (if otype ob = SOCKET
                    then [DestroyObj obj (bufInPtr ob) (bufOutPtr ob) (if 0 \<le> fd ob then - 1 else fd ob)]
                    else [])
            \<and> heap s' obj = (if otype ob = SOCKET then None
                              else Some (ob\<lparr>gotEOF := False, fd := (if 0 \<le> fd ob then - 1 else fd ob)\<rparr>))
            \<and> (\<forall>q. q \<noteq> obj \<longrightarrow> heap s' q = heap s q)"
    by (intro close_teardown_empty) auto
next
  assume a: "0 \<le> fd ob \<and> write_to_obj_locked (MAX_BUF_SIZE e) rs ob = Inr (ob1, evs)"
  from write_to_obj_locked_events[of "MAX_BUF_SIZE e" rs ob ob1 evs] a
  show "CloseObj obj \<notin> set evs" by auto
next
  assume a: "0 \<le> fd ob \<and> write_to_obj_locked (MAX_BUF_SIZE e) rs ob = Inr (ob1, evs)"
  with assms show "write_to_obj e fuel rs s obj =
            (if gotEOF ob1 \<and> bufInPtr ob1 = bufOutPtr ob1
             then close_obj e fuel (emit (store s obj ob1) evs) obj
             else Inr (emit (store s obj ob1) evs))"
    by (simp add: write_to_obj_def deref_def ebind_def Let_def)
next
  assume a: "0 \<le> fd ob \<and> write_to_obj_locked (MAX_BUF_SIZE e) rs ob = Inr (ob1, evs)"
  let ?s1 = "emit (store s obj ob1) evs"
  have ty: "otype ob1 = otype ob"
    using write_to_obj_locked_events[of "MAX_BUF_SIZE e" rs ob ob1 evs] a by simp
  show "\<forall>s'. gotEOF ob1 \<and> bufInPtr ob1 = bufOutPtr ob1
                 \<and> write_to_obj e fuel rs s obj = Inr s' \<longrightarrow>
             (\<exists>evs'. trace s' = trace s @ evs @ CloseObj obj # evs')
             \<and> (case heap s' obj of
                  None \<Rightarrow> otype ob = SOCKET
                | Some ob' \<Rightarrow> otype ob \<noteq> SOCKET \<and> \<not> gotEOF ob' \<and> fd ob' < 0)"
  proof (intro allI impI)
    fix s'
    assume b: "gotEOF ob1 \<and> bufInPtr ob1 = bufOutPtr ob1 \<and> write_to_obj e fuel rs s obj = Inr s'"
    with a assms have c: "close_obj e fuel ?s1 obj = Inr s'"
      by (auto simp: write_to_obj_def deref_def ebind_def Let_def)
    then obtain k where fuel: "fuel = Suc k" by (cases fuel) auto
    from close_obj_Suc_teardown[OF c[unfolded fuel]]
    obtain s4 where r: "close_rel (emit ?s1 [CloseObj obj]) s4" and t: "close_teardown e s4 obj = Inr s'"
      by blast
    from t obtain ob4 where h4: "heap s4 obj = Some ob4"
      by (cases "heap s4 obj") (auto simp: close_teardown_def deref_def ebind_def)
    from close_rel_heapD[OF r h4] have k4: "obj_kept ob1 ob4"
      by (auto simp: emit_def store_def)
    from r obtain evs4 where tr4: "trace s4 = trace s @ evs @ [CloseObj obj] @ evs4"
      by (auto simp: close_rel_def emit_def store_def)
    from k4 b have e4: "bufInPtr ob4 = bufOutPtr ob4" by (simp add: obj_kept_def)
    have nf: "\<not> (0 \<le> fd ob4 \<and> close_fails e (fd ob4))"
    proof
      assume "0 \<le> fd ob4 \<and> close_fails e (fd ob4)"
      with h4 e4 have "close_teardown e s4 obj = Inl (Fatal ''close() failed'')"
        by (simp add: close_teardown_def deref_def ebind_def)
      with t show False by simp
    qed
    from close_teardown_empty[OF h4 e4 nf] t
    have tr: "trace s' = trace s4 @ (if 0 \<le> fd ob4 then [SysClose (fd ob4)] else [])
                 @ (if otype ob4 = SOCKET
                    then [DestroyObj obj (bufInPtr ob4) (bufOutPtr ob4) (if 0 \<le> fd ob4 then - 1 else fd ob4)]
                    else [])"
      and hp: "heap s' obj = (if otype ob4 = SOCKET then None
                              else Some (ob4\<lparr>gotEOF := False, fd := (if 0 \<le> fd ob4 then - 1 else fd ob4)\<rparr>))"
      by auto
    have ty4: "otype ob4 = otype ob" using k4 ty by (simp add: obj_kept_def)
    have 1: "\<exists>evs'. trace s' = trace s @ evs @ CloseObj obj # evs'"
      unfolding tr tr4 by simp
    have 2: "case heap s' obj of
                  None \<Rightarrow> otype ob = SOCKET
                | Some ob' \<Rightarrow> otype ob \<noteq> SOCKET \<and> \<not> gotEOF ob' \<and> fd ob' < 0"
      unfolding hp using ty4 by auto
    from 1 2 show "(\<exists>evs'. trace s' = trace s @ evs @ CloseObj obj # evs')
             \<and> (case heap s' obj of
                  None \<Rightarrow> otype ob = SOCKET
                | Some ob' \<Rightarrow> otype ob \<noteq> SOCKET \<and> \<not> gotEOF ob' \<and> fd ob' < 0)" ..
  qed
qed

theorem close_obj_teardown_cases_witness:
  "close_teardown ex_env draining 1 = Inr (store draining 1 (sock3\<lparr>gotEOF := True\<rparr>))
   \<and> (\<exists>s'. close_teardown ex_env graph3 2 = Inr s'
          \<and> trace s' = [SysClose 5, DestroyObj 2 0 0 (- 1)] \<and> heap s' 2 = None
          \<and> heap s' 0 = Some cons0)
   \<and> (\<exists>s'. close_teardown ex_env graph3 0 = Inr s'
          \<and> trace s' = [SysClose 3] \<and> heap s' 0 = Some (cons0\<lparr>gotEOF := False, fd := - 1\<rparr>))
   \<and> write_to_obj ex_env 4 [Wrote 2] draining 1
        = Inr (emit (store draining 1 (sock3\<lparr>gotEOF := True, bufOutPtr := 2\<rparr>)) [SysWrite 5 ''ABC''])
   \<and> (\<exists>s'. write_to_obj ex_env 4 [Wrote 3] draining 1 = Inr s' \<and> heap s' 1 = None
          \<and> (\<exists>evs'. trace s' = [SysWrite 5 ''ABC'', CloseObj 1] @ evs'))"
proof -
  have hd: "heap draining 1 = Some (sock3\<lparr>gotEOF := True\<rparr>)"
    and h2: "heap graph3 2 = Some sock2" and h0: "heap graph3 0 = Some cons0"
    by (simp_all add: draining_def graph3_def)
  note D = close_obj_teardown_cases [OF hd, where e = ex_env]
  note G2 = close_obj_teardown_cases [OF h2, where e = ex_env]
  note G0 = close_obj_teardown_cases [OF h0, where e = ex_env]
  have "bufInPtr (sock3\<lparr>gotEOF := True\<rparr>) \<noteq> bufOutPtr (sock3\<lparr>gotEOF := True\<rparr>)"
    by (simp add: sock3_def)
  with D [THEN conjunct1]
  have a: "close_teardown ex_env draining 1 = Inr (store draining 1 (sock3\<lparr>gotEOF := True\<rparr>))"
    by simp
  have "bufInPtr sock2 = bufOutPtr sock2 \<and> \<not> (0 \<le> fd sock2 \<and> close_fails ex_env (fd sock2))"
    by (simp add: sock2_def ex_env_def)
  with G2 [THEN conjunct2, THEN conjunct1]
  obtain s2 where s2: "close_teardown ex_env graph3 2 = Inr s2"
    "trace s2 = trace graph3 @ (if 0 \<le> fd sock2 then [SysClose (fd sock2)] else [])
                 @ (if otype sock2 = SOCKET
                    then [DestroyObj 2 (bufInPtr sock2) (bufOutPtr sock2) (if 0 \<le> fd sock2 then - 1 else fd sock2)]
                    else [])"
    "heap s2 2 = (if otype sock2 = SOCKET then None
                  else Some (sock2\<lparr>gotEOF := False, fd := (if 0 \<le> fd sock2 then - 1 else fd sock2)\<rparr>))"
    "\<forall>q. q \<noteq> 2 \<longrightarrow> heap s2 q = heap graph3 q"
    by blast
  from s2(4) h0 have "heap s2 0 = Some cons0" by simp
  with s2 have b: "\<exists>s'. close_teardown ex_env graph3 2 = Inr s'
          \<and> trace s' = [SysClose 5, DestroyObj 2 0 0 (- 1)] \<and> heap s' 2 = None
          \<and> heap s' 0 = Some cons0"
    by (simp add: sock2_def graph3_def)
  have "bufInPtr cons0 = bufOutPtr cons0 \<and> \<not> (0 \<le> fd cons0 \<and> close_fails ex_env (fd cons0))"
    by (simp add: cons0_def ex_env_def)
  with G0 [THEN conjunct2, THEN conjunct1]
  obtain s0 where s0: "close_teardown ex_env graph3 0 = Inr s0"
    "trace s0 = trace graph3 @ (if 0 \<le> fd cons0 then [SysClose (fd cons0)] else [])
                 @ (if otype cons0 = SOCKET
                    then [DestroyObj 0 (bufInPtr cons0) (bufOutPtr cons0) (if 0 \<le> fd cons0 then - 1 else fd cons0)]
                    else [])"
    "heap s0 0 = (if otype cons0 = SOCKET then None
                  else Some (cons0\<lparr>gotEOF := False, fd := (if 0 \<le> fd cons0 then - 1 else fd cons0)\<rparr>))"
    by blast
  then have c: "\<exists>s'. close_teardown ex_env graph3 0 = Inr s'
          \<and> trace s' = [SysClose 3] \<and> heap s' 0 = Some (cons0\<lparr>gotEOF := False, fd := - 1\<rparr>)"
    by (simp add: cons0_def graph3_def)
  have l2: "0 \<le> fd (sock3\<lparr>gotEOF := True\<rparr>)
            \<and> write_to_obj_locked (MAX_BUF_SIZE ex_env) [Wrote 2] (sock3\<lparr>gotEOF := True\<rparr>)
              = Inr (sock3\<lparr>gotEOF := True, bufOutPtr := 2\<rparr>, [SysWrite 5 ''ABC''])"
    and l3: "0 \<le> fd (sock3\<lparr>gotEOF := True\<rparr>)
            \<and> write_to_obj_locked (MAX_BUF_SIZE ex_env) [Wrote 3] (sock3\<lparr>gotEOF := True\<rparr>)
              = Inr (sock3\<lparr>gotEOF := True, bufOutPtr := 3\<rparr>, [SysWrite 5 ''ABC''])"
    by (simp_all add: write_to_obj_locked_def write_avail_def sock3_def ex_env_def Let_def)
  from close_obj_teardown_cases [OF hd, where e = ex_env and rs = "[Wrote 2]" and fuel = 4,
      THEN conjunct2, THEN conjunct2] l2
  have "write_to_obj ex_env 4 [Wrote 2] draining 1 =
            (if gotEOF (sock3\<lparr>gotEOF := True, bufOutPtr := 2\<rparr>)
                \<and> bufInPtr (sock3\<lparr>gotEOF := True, bufOutPtr := 2\<rparr>)
                  = bufOutPtr (sock3\<lparr>gotEOF := True, bufOutPtr := 2\<rparr>)
             then close_obj ex_env 4 (emit (store draining 1 (sock3\<lparr>gotEOF := True, bufOutPtr := 2\<rparr>))
                                       [SysWrite 5 ''ABC'']) 1
             else Inr (emit (store draining 1 (sock3\<lparr>gotEOF := True, bufOutPtr := 2\<rparr>)) [SysWrite 5 ''ABC'']))"
    by blast
  then have d: "write_to_obj ex_env 4 [Wrote 2] draining 1
        = Inr (emit (store draining 1 (sock3\<lparr>gotEOF := True, bufOutPtr := 2\<rparr>)) [SysWrite 5 ''ABC''])"
    by (simp add: sock3_def)
  have "case write_to_obj ex_env 4 [Wrote 3] draining 1 of Inr s' \<Rightarrow> True | Inl err \<Rightarrow> False"
    by code_simp
  then obtain s' where w: "write_to_obj ex_env 4 [Wrote 3] draining 1 = Inr s'"
    by (auto split: sum.splits)
  have g: "gotEOF (sock3\<lparr>gotEOF := True, bufOutPtr := 3\<rparr>)
           \<and> bufInPtr (sock3\<lparr>gotEOF := True, bufOutPtr := 3\<rparr>)
             = bufOutPtr (sock3\<lparr>gotEOF := True, bufOutPtr := 3\<rparr>)"
    by (simp add: sock3_def)
  from close_obj_teardown_cases [OF hd, where e = ex_env and rs = "[Wrote 3]" and fuel = 4,
      THEN conjunct2, THEN conjunct2] l3 g w
  have "(\<exists>evs'. trace s' = trace draining @ [SysWrite 5 ''ABC''] @ CloseObj 1 # evs')
             \<and> (case heap s' 1 of
                  None \<Rightarrow> otype (sock3\<lparr>gotEOF := True\<rparr>) = SOCKET
                | Some ob' \<Rightarrow> otype (sock3\<lparr>gotEOF := True\<rparr>) \<noteq> SOCKET \<and> \<not> gotEOF ob' \<and> fd ob' < 0)"
    by blast
  then have e: "heap s' 1 = None \<and> (\<exists>evs'. trace s' = [SysWrite 5 ''ABC'', CloseObj 1] @ evs')"
    by (auto simp: sock3_def draining_def split: option.splits)
  from a b c d w e show ?thesis by blast
qed

section \<open>The deferred teardown\<close>

text \<open>
  \<open>close_obj\<close> on an object that has no writer never assigns its local \<open>reader\<close> before the
  loop of line 229 compares it with what \<open>list_pop\<close> returns.  When the object has no
  readers either, \<open>list_pop\<close> returns \<open>NULL\<close>; if the unassigned variable holds \<open>NULL\<close> too,
  the comparison succeeds and line 230 reads \<open>reader->writer\<close> through the null pointer.
\<close>

lemma close_obj_null_reader:
  assumes "heap s obj = Some ob" "writer ob = None" "readers ob = []" "uninit_reader e = None"
  shows "close_obj e (Suc (Suc k)) s obj = Inl NullDeref"
  using assms by (simp add: ebind_def deref_def emit_def list_pop_def store_def)

text \<open>
  C4: \<open>close_obj\<close> is claimed to defer the teardown of an object whose buffer still holds
  bytes, and \<open>write_to_obj\<close> to complete it, by calling \<open>close_obj\<close>, once \<open>gotEOF\<close> is set and
  the buffer has drained: the descriptor is then closed and a socket destroyed.  The
  store \<open>draining\<close> holds one socket in this state, closed earlier with \<open>ABC\<close> still
  buffered, so that it has lost its writer and has no readers.  \<open>write\<close> takes the three
  bytes, the critical section leaves \<open>gotEOF\<close> set and the buffer empty, and
  \<open>write_to_obj\<close> calls \<open>close_obj\<close>; with \<open>NULL\<close> in the unassigned \<open>reader\<close> the call ends
  in the null dereference, with the descriptor still open and the object not destroyed.
\<close>

theorem write_to_obj_teardown_null_reader:
  "(case write_to_obj_locked 8 [Wrote 3] (sock3\<lparr>gotEOF := True\<rparr>) of
      Inr (ob1, evs) \<Rightarrow> gotEOF ob1 \<and> bufInPtr ob1 = bufOutPtr ob1 \<and> evs = [SysWrite 5 ''ABC'']
    | Inl x \<Rightarrow> False)
   \<and> (case write_to_obj (ex_env\<lparr>uninit_reader := None\<rparr>) 4 [Wrote 3] draining 1 of
        Inl x \<Rightarrow> x = NullDeref
      | Inr s' \<Rightarrow> False)
   \<and> (case close_obj (ex_env\<lparr>uninit_reader := None\<rparr>) 4
             (emit (store draining 1 (sock3\<lparr>gotEOF := True, bufOutPtr := 3\<rparr>)) [SysWrite 5 ''ABC'']) 1 of
        Inl x \<Rightarrow> x = NullDeref
      | Inr s' \<Rightarrow> False)"
  by code_simp

section \<open>destroy_obj as called from close_obj\<close>

text \<open>
  C10: \<open>close_obj\<close> never fails an assertion, in particular not the emptiness assertion
  of \<open>destroy_obj\<close>; in every run of \<open>close_obj\<close> that returns, each call of
  \<open>destroy_obj\<close> (in the call itself or in the calls it makes to itself) found the
  buffer empty and \<open>fd\<close> negative, and \<open>destroy_obj\<close> never closed a descriptor.  The
  last step of \<open>close_obj\<close> on a socket with an empty buffer issues one \<open>close\<close> when the
  descriptor was open and none otherwise, before \<open>destroy_obj\<close> is called.
\<close>

theorem destroy_obj_from_close_obj:
  "(\<forall>msg. close_obj e k s obj \<noteq> Inl (AssertFailed msg))
   \<and> (\<forall>s'. close_obj e k s obj = Inr s' \<longrightarrow>
         (\<exists>evs. trace s' = trace s @ evs \<and> list_all destroy_ok evs))
   \<and> (\<forall>ob. heap s obj = Some ob \<and> bufInPtr ob = bufOutPtr ob \<and> otype ob = SOCKET
            \<and> \<not> (0 \<le> fd ob \<and> close_fails e (fd ob)) \<longrightarrow>
         (\<exists>s'. close_teardown e s obj = Inr s' \<and> heap s' obj = None
            \<and> trace s' = trace s @ (if 0 \<le> fd ob then [SysClose (fd ob)] else [])
                 @ [DestroyObj obj (bufInPtr ob) (bufOutPtr ob) (if 0 \<le> fd ob then - 1 else fd ob)]))"
proof (intro conjI allI impI)
  fix msg
  from okres_all(1)[of s e k obj] show "close_obj e k s obj \<noteq> Inl (AssertFailed msg)"
    by (auto simp: okres_def)
next
  fix s' assume "close_obj e k s obj = Inr s'"
  with okres_all(1)[of s e k obj] show "\<exists>evs. trace s' = trace s @ evs \<and> list_all destroy_ok evs"
    by (simp add: okres_def close_rel_def)
next
  fix ob
  assume a: "heap s obj = Some ob \<and> bufInPtr ob = bufOutPtr ob \<and> otype ob = SOCKET
            \<and> \<not> (0 \<le> fd ob \<and> close_fails e (fd ob))"
  then have "heap s obj = Some ob" "bufInPtr ob = bufOutPtr ob"
    "\<not> (0 \<le> fd ob \<and> close_fails e (fd ob))" by auto
  from close_teardown_empty[OF this] a
  show "\<exists>s'. close_teardown e s obj = Inr s' \<and> heap s' obj = None
            \<and> trace s' = trace s @ (if 0 \<le> fd ob then [SysClose (fd ob)] else [])
                 @ [DestroyObj obj (bufInPtr ob) (bufOutPtr ob) (if 0 \<le> fd ob then - 1 else fd ob)]"
    by auto
qed

theorem destroy_obj_from_close_obj_witness:
  "\<exists>s'. close_obj ex_env 4 graph3 2 = Inr s' \<and> heap s' 2 = None
        \<and> trace s' = [CloseObj 2, SysClose 5, DestroyObj 2 0 0 (- 1)]
        \<and> list_all destroy_ok (trace s')
        \<and> (\<exists>t. close_teardown ex_env graph3 2 = Inr t \<and> heap t 2 = None
               \<and> trace t = [SysClose 5, DestroyObj 2 0 0 (- 1)])"
proof -
  have "case close_obj ex_env 4 graph3 2 of
          Inr s' \<Rightarrow> heap s' 2 = None \<and> trace s' = [CloseObj 2, SysClose 5, DestroyObj 2 0 0 (- 1)]
        | Inl err \<Rightarrow> False"
    by code_simp
  then obtain s' where eq: "close_obj ex_env 4 graph3 2 = Inr s'" and h: "heap s' 2 = None"
    and tr: "trace s' = [CloseObj 2, SysClose 5, DestroyObj 2 0 0 (- 1)]"
    by (auto split: sum.splits)
  note T = destroy_obj_from_close_obj [of ex_env 4 graph3 2]
  from T eq obtain evs where "trace s' = trace graph3 @ evs" "list_all destroy_ok evs" by blast
  then have ok: "list_all destroy_ok (trace s')" by (simp add: graph3_def)
  have "heap graph3 2 = Some sock2 \<and> bufInPtr sock2 = bufOutPtr sock2 \<and> otype sock2 = SOCKET
            \<and> \<not> (0 \<le> fd sock2 \<and> close_fails ex_env (fd sock2))"
    by (simp add: graph3_def sock2_def ex_env_def)
  with T have "\<exists>t. close_teardown ex_env graph3 2 = Inr t \<and> heap t 2 = None
            \<and> trace t = trace graph3 @ (if 0 \<le> fd sock2 then [SysClose (fd sock2)] else [])
                 @ [DestroyObj 2 (bufInPtr sock2) (bufOutPtr sock2) (if 0 \<le> fd sock2 then - 1 else fd sock2)]"
    by blast
  then have td: "\<exists>t. close_teardown ex_env graph3 2 = Inr t \<and> heap t 2 = None
               \<and> trace t = [SysClose 5, DestroyObj 2 0 0 (- 1)]"
    by (simp add: graph3_def sock2_def)
  from eq h tr ok td show ?thesis by blast
qed

section \<open>The loop that drains the readers\<close>

text \<open>
  C3: \<open>close_obj\<close> is claimed to take every reader off \<open>obj->readers\<close>, to clear the
  \<open>writer\<close> of each reader that pointed to \<open>obj\<close>, and to close each such reader that has
  no readers of its own.  Closing the console of \<open>graph3\<close> pops only the log file: the
  loop condition compares the popped item with \<open>reader\<close> (which still holds the console
  itself from the first loop) and stops.  The client stays in the console's list, the
  log file and the client keep the console as their writer, and neither is closed.
\<close>

theorem close_obj_pops_one_reader:
  "case close_obj ex_env 4 graph3 0 of
     Inr s' \<Rightarrow>
       heap s' 0 = Some (cons0\<lparr>writer := None, readers := [2], fd := - 1\<rparr>)
       \<and> heap s' 1 = Some logf1
       \<and> heap s' 2 = Some (sock2\<lparr>readers := []\<rparr>)
       \<and> trace s' = [CloseObj 0, SysClose 3]
   | Inl err \<Rightarrow> False"
  by code_simp

section \<open>The bounds of the buffer indices\<close>

text \<open>
  C2: in every store that the functions of server-obj.c produce from the empty one,
  every object has \<open>bufInPtr < MAX_BUF_SIZE\<close> and \<open>bufOutPtr < MAX_BUF_SIZE\<close> (the
  offsets are natural numbers, so they are never negative); the buffer holds no byte
  exactly when the two are equal, and never more than \<open>MAX_BUF_SIZE - 1\<close> bytes.
  \<open>write_obj_data\<close> keeps the bounds for every source and length, and fails no
  assertion; the critical section of \<open>write_to_obj\<close> keeps them and fails no assertion
  when \<open>write\<close> reports no more bytes than it was given; and both functions keep the
  bounds of every object of the store whenever they return.
\<close>

theorem buffer_bounds_invariant:
  assumes "0 < MAX_BUF_SIZE e"
  shows "(reachable e s \<and> heap s p = Some ob \<longrightarrow>
            bufInPtr ob < MAX_BUF_SIZE e \<and> bufOutPtr ob < MAX_BUF_SIZE e
            \<and> (occupancy (MAX_BUF_SIZE e) ob = 0 \<longleftrightarrow> bufInPtr ob = bufOutPtr ob)
            \<and> occupancy (MAX_BUF_SIZE e) ob \<le> MAX_BUF_SIZE e - 1)
   \<and> (buf_inv M ob1 \<longrightarrow>
        (case write_obj_data M ob1 src len of
           Inr (r, ob', evs) \<Rightarrow> buf_inv M ob'
         | Inl err \<Rightarrow> err = BadRead))
   \<and> (buf_inv M ob1 \<and> posix_writes M ob1 rs \<longrightarrow>
        (case write_to_obj_locked M rs ob1 of
           Inr (ob', evs) \<Rightarrow> buf_inv M ob'
         | Inl err \<Rightarrow> err = OutOfFuel \<or> (\<exists>msg. err = Fatal msg)))
   \<and> (heap_inv (MAX_BUF_SIZE e) s1 \<longrightarrow>
        (\<forall>r s'. write_obj_data_st e s1 obj src len = Inr (r, s') \<longrightarrow> heap_inv (MAX_BUF_SIZE e) s'))
   \<and> (heap_inv (MAX_BUF_SIZE e) s1 \<longrightarrow>
        (\<forall>s'. write_to_obj e fuel rs s1 obj = Inr s' \<longrightarrow> heap_inv (MAX_BUF_SIZE e) s'))"
proof -
  have 1: "reachable e s \<and> heap s p = Some ob \<longrightarrow>
            bufInPtr ob < MAX_BUF_SIZE e \<and> bufOutPtr ob < MAX_BUF_SIZE e
            \<and> (occupancy (MAX_BUF_SIZE e) ob = 0 \<longleftrightarrow> bufInPtr ob = bufOutPtr ob)
            \<and> occupancy (MAX_BUF_SIZE e) ob \<le> MAX_BUF_SIZE e - 1"
  proof
    assume a: "reachable e s \<and> heap s p = Some ob"
    with reachable_heap_inv[OF assms] have "buf_inv (MAX_BUF_SIZE e) ob"
      by (auto dest: heap_invD)
    then have io: "bufInPtr ob < MAX_BUF_SIZE e" "bufOutPtr ob < MAX_BUF_SIZE e"
      by (simp_all add: buf_inv_def)
    with occupancy_bounds[OF io]
    show "bufInPtr ob < MAX_BUF_SIZE e \<and> bufOutPtr ob < MAX_BUF_SIZE e
            \<and> (occupancy (MAX_BUF_SIZE e) ob = 0 \<longleftrightarrow> bufInPtr ob = bufOutPtr ob)
            \<and> occupancy (MAX_BUF_SIZE e) ob \<le> MAX_BUF_SIZE e - 1"
      by simp
  qed
  have 2: "buf_inv M ob1 \<longrightarrow>
        (case write_obj_data M ob1 src len of
           Inr (r, ob', evs) \<Rightarrow> buf_inv M ob'
         | Inl err \<Rightarrow> err = BadRead)"
    by (rule impI) (rule write_obj_data_inv)
  have 3: "buf_inv M ob1 \<and> posix_writes M ob1 rs \<longrightarrow>
        (case write_to_obj_locked M rs ob1 of
           Inr (ob', evs) \<Rightarrow> buf_inv M ob'
         | Inl err \<Rightarrow> err = OutOfFuel \<or> (\<exists>msg. err = Fatal msg))"
  proof
    assume "buf_inv M ob1 \<and> posix_writes M ob1 rs"
    then have "buf_inv M ob1" "\<forall>n. Wrote n \<in> set rs \<longrightarrow> n \<le> write_avail M ob1"
      by (simp_all add: posix_writes_iff)
    then show "case write_to_obj_locked M rs ob1 of
           Inr (ob', evs) \<Rightarrow> buf_inv M ob'
         | Inl err \<Rightarrow> err = OutOfFuel \<or> (\<exists>msg. err = Fatal msg)"
      by (rule write_to_obj_locked_inv)
  qed
  have 4: "heap_inv (MAX_BUF_SIZE e) s1 \<longrightarrow>
        (\<forall>r s'. write_obj_data_st e s1 obj src len = Inr (r, s') \<longrightarrow> heap_inv (MAX_BUF_SIZE e) s')"
  proof
    assume "heap_inv (MAX_BUF_SIZE e) s1"
    from keeps_write_obj_data_st[OF this refl, of obj src len]
    show "\<forall>r s'. write_obj_data_st e s1 obj src len = Inr (r, s') \<longrightarrow> heap_inv (MAX_BUF_SIZE e) s'"
      by (simp add: keeps_def)
  qed
  have 5: "heap_inv (MAX_BUF_SIZE e) s1 \<longrightarrow>
        (\<forall>s'. write_to_obj e fuel rs s1 obj = Inr s' \<longrightarrow> heap_inv (MAX_BUF_SIZE e) s')"
  proof
    assume "heap_inv (MAX_BUF_SIZE e) s1"
    from keeps_write_to_obj[OF this refl, of fuel rs obj]
    show "\<forall>s'. write_to_obj e fuel rs s1 obj = Inr s' \<longrightarrow> heap_inv (MAX_BUF_SIZE e) s'"
      by (simp add: keeps_def)
  qed
  from 1 2 3 4 5 show ?thesis by (intro conjI)
qed

theorem buffer_bounds_invariant_witness:
  "create_socket_obj ex_env init_state ''u'' ''h'' 5 = Inr (0, one_sock)
   \<and> write_obj_data_st ex_env one_sock 0 (Some ''ABC'') 3 = Inr (3, one_sock_abc)
   \<and> reachable ex_env one_sock_abc
   \<and> heap one_sock_abc 0 = Some (fresh_sock\<lparr>buf := ''ABC.....'', bufInPtr := 3\<rparr>)
   \<and> occupancy 8 (fresh_sock\<lparr>buf := ''ABC.....'', bufInPtr := 3\<rparr>) \<noteq> 0
   \<and> occupancy 8 (fresh_sock\<lparr>buf := ''ABC.....'', bufInPtr := 3\<rparr>) \<le> 7
   \<and> buf_inv 8 sock3
   \<and> (\<exists>r ob' evs. write_obj_data 8 sock3 (Some ''12345'') 5 = Inr (r, ob', evs) \<and> buf_inv 8 ob')
   \<and> posix_writes 8 sock3 [Wrote 3]
   \<and> (\<exists>ob' evs. write_to_obj_locked 8 [Wrote 3] sock3 = Inr (ob', evs) \<and> buf_inv 8 ob')
   \<and> heap_inv 8 one_sock \<and> heap_inv 8 one_sock_abc
   \<and> heap_inv 8 draining
   \<and> (\<exists>s'. write_to_obj ex_env 4 [Wrote 2] draining 1 = Inr s' \<and> heap_inv 8 s')"
proof -
  have pos: "0 < MAX_BUF_SIZE ex_env" and M: "MAX_BUF_SIZE ex_env = 8" by (simp_all add: ex_env_def)
  note T = buffer_bounds_invariant [OF pos]
  have upt8: "[0..<8] = [0, 1, 2, 3, 4, 5, 6, 7::nat]" by code_simp
  have c: "create_socket_obj ex_env init_state ''u'' ''h'' 5 = Inr (0, one_sock)"
    by (simp add: upt8 create_socket_obj_def create_obj_def init_state_def ex_env_def store_def
        Let_def one_sock_def fresh_sock_def)
  have wo: "write_obj_data 8 fresh_sock (Some ''ABC'') 3
              = Inr (3, fresh_sock\<lparr>buf := ''ABC.....'', bufInPtr := 3\<rparr>, [])"
    by (simp add: write_obj_data_def fresh_sock_def memcpy_at_def Let_def)
  have h1: "heap one_sock 0 = Some fresh_sock" by (simp add: one_sock_def)
  have w: "write_obj_data_st ex_env one_sock 0 (Some ''ABC'') 3 = Inr (3, one_sock_abc)"
    using h1 M by (simp add: write_obj_data_st_def deref_def ebind_def wo one_sock_abc_def)
  have r2: "reachable ex_env one_sock_abc"
    by (rule r_write_data[OF r_socket[OF r_init c] w])
  have h: "heap one_sock_abc 0 = Some (fresh_sock\<lparr>buf := ''ABC.....'', bufInPtr := 3\<rparr>)"
    by (simp add: one_sock_abc_def emit_def store_def)
  from T [where s = one_sock_abc and p = 0, THEN conjunct1] r2 h
  have b: "(occupancy 8 (fresh_sock\<lparr>buf := ''ABC.....'', bufInPtr := 3\<rparr>) = 0
              \<longleftrightarrow> bufInPtr (fresh_sock\<lparr>buf := ''ABC.....'', bufInPtr := 3\<rparr>)
                  = bufOutPtr (fresh_sock\<lparr>buf := ''ABC.....'', bufInPtr := 3\<rparr>))
           \<and> occupancy 8 (fresh_sock\<lparr>buf := ''ABC.....'', bufInPtr := 3\<rparr>) \<le> 7"
    by (simp add: M)
  then have b': "occupancy 8 (fresh_sock\<lparr>buf := ''ABC.....'', bufInPtr := 3\<rparr>) \<noteq> 0"
    by (simp add: fresh_sock_def)
  have bi: "buf_inv 8 sock3" by (simp add: buf_inv_def sock3_def)
  from T [where M = 8 and ?ob1.0 = sock3 and src = "Some ''12345''" and len = 5,
          THEN conjunct2, THEN conjunct1] bi
  have wd: "\<exists>r ob' evs. write_obj_data 8 sock3 (Some ''12345'') 5 = Inr (r, ob', evs) \<and> buf_inv 8 ob'"
    by (cases "write_obj_data 8 sock3 (Some ''12345'') 5") (auto simp: write_obj_data_def sock3_def)
  have pw: "posix_writes 8 sock3 [Wrote 3]"
    by (simp add: posix_writes_def write_avail_def sock3_def)
  have l3: "write_to_obj_locked 8 [Wrote 3] sock3 = Inr (sock3\<lparr>bufOutPtr := 3\<rparr>, [SysWrite 5 ''ABC''])"
    by (simp add: write_to_obj_locked_def write_avail_def sock3_def Let_def)
  from T [where M = 8 and ?ob1.0 = sock3 and rs = "[Wrote 3]",
          THEN conjunct2, THEN conjunct2, THEN conjunct1] bi pw
  have wl: "\<exists>ob' evs. write_to_obj_locked 8 [Wrote 3] sock3 = Inr (ob', evs) \<and> buf_inv 8 ob'"
    by (simp add: l3)
  have i1: "heap_inv 8 one_sock"
    by (simp add: heap_inv_def one_sock_def buf_inv_def fresh_sock_def)
  from T [where ?s1.0 = one_sock and obj = 0 and src = "Some ''ABC''" and len = 3,
          THEN conjunct2, THEN conjunct2, THEN conjunct2, THEN conjunct1] i1 w
  have i2: "heap_inv 8 one_sock_abc" by (simp add: M)
  have idr: "heap_inv 8 draining"
    by (simp add: heap_inv_def draining_def buf_inv_def sock3_def)
  have "case write_to_obj ex_env 4 [Wrote 2] draining 1 of Inr s' \<Rightarrow> True | Inl err \<Rightarrow> False"
    by code_simp
  then obtain s' where wt: "write_to_obj ex_env 4 [Wrote 2] draining 1 = Inr s'"
    by (auto split: sum.splits)
  from T [where ?s1.0 = draining and obj = 1 and rs = "[Wrote 2]" and fuel = 4,
          THEN conjunct2, THEN conjunct2, THEN conjunct2, THEN conjunct2] idr wt
  have i3: "heap_inv 8 s'" by (simp add: M)
  from wt i3 have last: "\<exists>s'. write_to_obj ex_env 4 [Wrote 2] draining 1 = Inr s' \<and> heap_inv 8 s'"
    by blast
  from c w r2 h b b' bi wd pw wl i1 i2 idr last show ?thesis by simp
qed

section \<open>Stealing a console: what holds whenever the call returns\<close>

text \<open>
  Whenever \<open>create_obj_link src dst\<close> finds a writer \<open>w\<close> on \<open>dst\<close> and returns:
  the notice \<open>steal_notice\<close> built from the names of \<open>dst\<close> and \<open>src\<close> and the time string
  is handed to \<open>write_obj_data\<close> on \<open>w\<close> before \<open>close_obj w\<close> is entered (the trace up to
  the write holds no \<open>CloseObj w\<close>, and \<open>close_obj\<close> runs on the store the write left); when
  the notice fits in the free space of \<open>w\<close>, the bytes \<open>w\<close> holds afterwards are the old
  ones followed by the notice.  In the store returned, the writer of \<open>dst\<close> is \<open>src\<close> and
  \<open>dst\<close> is among the readers of \<open>src\<close>, and \<open>open_obj\<close> has been entered, after \<open>close_obj w\<close>,
  on each of \<open>src\<close> and \<open>dst\<close> whose descriptor was negative.
\<close>

theorem create_obj_link_steal:
  assumes "heap s dst = Some d" and "writer d = Some w"
    and "create_obj_link e fuel s src dst = Inr s'"
  shows "\<exists>so wo r s1 s2 wo1 evs0 evs1.
           heap s src = Some so \<and> heap s w = Some wo
         \<and> write_obj_data_st e s w (Some (steal_notice (name d) (name so) (now_string e)))
              (int (length (steal_notice (name d) (name so) (now_string e)))) = Inr (r, s1)
         \<and> heap s1 w = Some wo1
         \<and> write_obj_data (MAX_BUF_SIZE e) wo (Some (steal_notice (name d) (name so) (now_string e)))
              (int (length (steal_notice (name d) (name so) (now_string e)))) = Inr (r, wo1, evs0)
         \<and> (buf_inv (MAX_BUF_SIZE e) wo
              \<and> occupancy (MAX_BUF_SIZE e) wo + length (steal_notice (name d) (name so) (now_string e))
                  < MAX_BUF_SIZE e
              \<longrightarrow> contents wo1 = contents wo @ steal_notice (name d) (name so) (now_string e))
         \<and> trace s1 = trace s @ evs0 \<and> CloseObj w \<notin> set evs0
         \<and> close_obj e fuel s1 w = Inr s2
         \<and> trace s' = trace s1 @ CloseObj w # evs1
         \<and> (fd so < 0 \<longrightarrow> OpenObj src \<in> set evs1)
         \<and> (fd d < 0 \<longrightarrow> OpenObj dst \<in> set evs1)
         \<and> (\<exists>d' so'. heap s' dst = Some d' \<and> writer d' = Some src
                      \<and> heap s' src = Some so' \<and> dst \<in> set (readers so'))"
proof -
  from assms(3) obtain s2 where st: "steal_console e fuel s src dst = Inr s2"
    and b: "ebind (add_link s2 src dst) (\<lambda>s4. ensure_active e s4 src dst) = Inr s'"
    unfolding create_obj_link_def by (rule ebind_InrE)
  from b obtain s4 where al: "add_link s2 src dst = Inr s4"
    and ea: "ensure_active e s4 src dst = Inr s'"
    by (rule ebind_InrE)
  from steal_console_Inr[OF assms(1,2) st] obtain so wo r s1 where
    hs: "heap s src = Some so" and hw: "heap s w = Some wo"
    and wd: "write_obj_data_st e s w (Some (steal_notice (name d) (name so) (now_string e)))
                 (int (length (steal_notice (name d) (name so) (now_string e)))) = Inr (r, s1)"
    and cl: "close_obj e fuel s1 w = Inr s2"
    by blast
  let ?n = "steal_notice (name d) (name so) (now_string e)"
  have npos: "0 < length ?n" by (simp add: steal_notice_def)
  then have npos': "0 < int (length ?n)" by simp
  from write_obj_data_st_Inr[OF _ npos' wd] hw obtain wo1 evs0 where
    w1: "write_obj_data (MAX_BUF_SIZE e) wo (Some ?n) (int (length ?n)) = Inr (r, wo1, evs0)"
    and s1: "s1 = emit (store s w wo1) evs0"
    by auto
  have h1: "heap s1 w = Some wo1" and t1: "trace s1 = trace s @ evs0"
    unfolding s1 by (simp_all add: emit_def store_def)
  from write_obj_data_frame[OF w1] have l1: "\<forall>ev\<in>set evs0. \<exists>l m. ev = LogMsg l m" by simp
  have app: "buf_inv (MAX_BUF_SIZE e) wo \<and> occupancy (MAX_BUF_SIZE e) wo + length ?n < MAX_BUF_SIZE e
              \<longrightarrow> contents wo1 = contents wo @ ?n"
  proof
    assume a: "buf_inv (MAX_BUF_SIZE e) wo \<and> occupancy (MAX_BUF_SIZE e) wo + length ?n < MAX_BUF_SIZE e"
    then have "buf_inv (MAX_BUF_SIZE e) wo" "occupancy (MAX_BUF_SIZE e) wo + length ?n < MAX_BUF_SIZE e"
      by simp_all
    from write_obj_data_fits[OF this(1) npos this(2)] w1
    show "contents wo1 = contents wo @ ?n" by auto
  qed
  from write_obj_data_st_frame[OF wd] have
    f1: "\<forall>q ob. heap s q = Some ob \<longrightarrow> (\<exists>ob'. heap s1 q = Some ob' \<and> fd ob' = fd ob)"
    by blast
  from l1 have n1: "CloseObj w \<notin> set evs0" by auto
  from close_obj_trace[OF cl] obtain evsc where t2: "trace s2 = trace s1 @ CloseObj w # evsc" by blast
  from okres_InrD[OF okres_all(1) cl] have r2: "close_rel s1 s2" .
  from add_link_Inr[OF al] obtain d4 so4 where
    g4: "heap s4 dst = Some d4" "writer d4 = Some src" "heap s4 src = Some so4" "dst \<in> set (readers so4)"
    and t4: "trace s4 = trace s2"
    and f4: "\<forall>q ob. heap s2 q = Some ob \<longrightarrow> (\<exists>ob'. heap s4 q = Some ob' \<and> fd ob' = fd ob)"
    by blast
  from add_link_alive[OF al] obtain so2 d2 where h2: "heap s2 src = Some so2" "heap s2 dst = Some d2"
    by blast
  have neg: "fd ob2 < 0" if "heap s q = Some ob" "fd ob < 0" "heap s2 q = Some ob2" for q ob ob2
  proof -
    from close_rel_heapD[OF r2 that(3)] obtain ob1 where "heap s1 q = Some ob1" "obj_kept ob1 ob2"
      by blast
    moreover from f1 that(1) obtain ob1' where "heap s1 q = Some ob1'" "fd ob1' = fd ob" by blast
    ultimately show ?thesis using that(2) by (auto simp: obj_kept_def)
  qed
  from ensure_active_Inr[OF ea] obtain evsa where
    g5: "\<forall>q ob. heap s4 q = Some ob \<longrightarrow>
            (\<exists>ob'. heap s' q = Some ob' \<and> writer ob' = writer ob \<and> readers ob' = readers ob)"
    and t5: "trace s' = trace s4 @ evsa"
    and o1: "\<forall>so. heap s4 src = Some so \<and> fd so < 0 \<longrightarrow> OpenObj src \<in> set evsa"
    and o2: "\<forall>d. heap s4 dst = Some d \<and> fd d < 0 \<longrightarrow> OpenObj dst \<in> set evsa"
    by blast
  have tr: "trace s' = trace s1 @ CloseObj w # (evsc @ evsa)"
    using t5 t4 t2 by simp
  have os: "fd so < 0 \<longrightarrow> OpenObj src \<in> set (evsc @ evsa)"
  proof
    assume "fd so < 0"
    from neg[OF hs this h2(1)] have "fd so2 < 0" .
    moreover have "fd so4 = fd so2"
    proof -
      from f4 h2(1) obtain x where "heap s4 src = Some x" "fd x = fd so2" by blast
      with g4(3) show ?thesis by simp
    qed
    ultimately show "OpenObj src \<in> set (evsc @ evsa)" using o1 g4(3) by auto
  qed
  have od: "fd d < 0 \<longrightarrow> OpenObj dst \<in> set (evsc @ evsa)"
  proof
    assume "fd d < 0"
    from neg[OF assms(1) this h2(2)] have "fd d2 < 0" .
    moreover have "fd d4 = fd d2"
    proof -
      from f4 h2(2) obtain x where "heap s4 dst = Some x" "fd x = fd d2" by blast
      with g4(1) show ?thesis by simp
    qed
    ultimately show "OpenObj dst \<in> set (evsc @ evsa)" using o2 g4(1) by auto
  qed
  from g5 g4 obtain d' where gd: "heap s' dst = Some d'" "writer d' = Some src" by force
  from g5 g4 obtain so' where gs: "heap s' src = Some so'" "dst \<in> set (readers so')" by force
  from hs hw wd h1 w1 app t1 n1 cl tr os od gd gs show ?thesis by blast
qed

theorem create_obj_link_steal_witness:
  "\<exists>s' s1 s2 wo1 evs1.
       create_obj_link env64 5 steal_state 3 0 = Inr s'
     \<and> heap s1 2 = Some wo1
     \<and> contents wo1 = steal_notice ''c1'' ''v@h'' ''now''
     \<and> close_obj env64 5 s1 2 = Inr s2
     \<and> trace s' = trace s1 @ CloseObj 2 # evs1
     \<and> OpenObj 3 \<in> set evs1 \<and> OpenObj 0 \<in> set evs1
     \<and> (\<exists>d' so'. heap s' 0 = Some d' \<and> writer d' = Some 3
                  \<and> heap s' 3 = Some so' \<and> 0 \<in> set (readers so'))"
proof -
  have "case create_obj_link env64 5 steal_state 3 0 of Inr s' \<Rightarrow> True | Inl x \<Rightarrow> False"
    by code_simp
  then obtain s' where run: "create_obj_link env64 5 steal_state 3 0 = Inr s'"
    by (cases "create_obj_link env64 5 steal_state 3 0") simp_all
  have h0: "heap steal_state 0 = Some (cons0\<lparr>fd := - 1, buf := buf64\<rparr>)"
    by (simp add: steal_state_def)
  have w0: "writer (cons0\<lparr>fd := - 1, buf := buf64\<rparr>) = Some 2"
    by (simp add: cons0_def)
  from create_obj_link_steal[OF h0 w0 run] obtain so wo r s1 s2 wo1 evs0 evs1 where
    hs: "heap steal_state 3 = Some so" and hw: "heap steal_state 2 = Some wo"
    and h1: "heap s1 2 = Some wo1"
    and app: "buf_inv (MAX_BUF_SIZE env64) wo
              \<and> occupancy (MAX_BUF_SIZE env64) wo
                  + length (steal_notice (name (cons0\<lparr>fd := - 1, buf := buf64\<rparr>)) (name so) (now_string env64))
                  < MAX_BUF_SIZE env64
              \<longrightarrow> contents wo1 = contents wo
                    @ steal_notice (name (cons0\<lparr>fd := - 1, buf := buf64\<rparr>)) (name so) (now_string env64)"
    and cl: "close_obj env64 5 s1 2 = Inr s2"
    and tr: "trace s' = trace s1 @ CloseObj 2 # evs1"
    and os: "fd so < 0 \<longrightarrow> OpenObj 3 \<in> set evs1"
    and od: "fd (cons0\<lparr>fd := - 1, buf := buf64\<rparr>) < 0 \<longrightarrow> OpenObj 0 \<in> set evs1"
    and gr: "\<exists>d' so'. heap s' 0 = Some d' \<and> writer d' = Some 3
                      \<and> heap s' 3 = Some so' \<and> 0 \<in> set (readers so')"
    by blast
  from hs have so: "so = new_sock" by (simp add: steal_state_def)
  from hw have wo: "wo = sock2\<lparr>buf := buf64\<rparr>" by (simp add: steal_state_def)
  have nm: "name (cons0\<lparr>fd := - 1, buf := buf64\<rparr>) = ''c1''" "name so = ''v@h''"
       "now_string env64 = ''now''" "MAX_BUF_SIZE env64 = 64"
    by (simp_all add: cons0_def so new_sock_def env64_def ex_env_def)
  have len: "length (steal_notice ''c1'' ''v@h'' ''now'') = 38"
    by (simp add: steal_notice_def)
  have bi: "buf_inv 64 wo" "occupancy 64 wo = 0" "contents wo = []"
    by (simp_all add: wo sock2_def buf64_def buf_inv_def occupancy_def contents_def)
  from app have c1: "contents wo1 = steal_notice ''c1'' ''v@h'' ''now''"
    unfolding nm using bi len by simp
  from os have o3: "OpenObj 3 \<in> set evs1" by (simp add: so new_sock_def)
  from od have o0: "OpenObj 0 \<in> set evs1" by (simp add: cons0_def)
  from run h1 c1 cl tr o3 o0 gr show ?thesis by blast
qed

section \<open>A steal whose notice fills the buffer\<close>

text \<open>
  C5: on a steal, the notice is claimed to be appended to the buffer of the old writer
  \<open>W\<close> before \<open>close_obj\<close> is called on \<open>W\<close>.  In \<open>steal_pending\<close> the old writer of the console
  holds 26 bytes in its buffer of 64, and the notice has 38.  \<open>write_obj_data\<close> counts 38
  bytes as free, copies the notice, reports no overrun and leaves \<open>bufInPtr\<close> on
  \<open>bufOutPtr\<close>: the buffer reads as empty and holds neither the 26 bytes nor the notice.
  \<open>close_obj\<close> then finds nothing to flush, closes the descriptor of \<open>W\<close> and destroys \<open>W\<close>
  on the spot.  The rest of the claim holds in this run: the console has the new
  writer, and \<open>open_obj\<close> is entered for the console, whose descriptor was not open.
\<close>

theorem create_obj_link_steal_notice_lost:
  "occupancy 64 (sock2\<lparr>buf := buf64, bufInPtr := 26\<rparr>) = 26
   \<and> length (steal_notice ''c1'' ''v@h'' ''now'') = 38
   \<and> (case write_obj_data 64 (sock2\<lparr>buf := buf64, bufInPtr := 26\<rparr>)
             (Some (steal_notice ''c1'' ''v@h'' ''now'')) 38 of
        Inr (r, w', evs) \<Rightarrow>
          r = 38 \<and> evs = [] \<and> bufInPtr w' = 0 \<and> bufOutPtr w' = 0
          \<and> contents w' = [] \<and> occupancy 64 w' = 0
      | Inl x \<Rightarrow> False)
   \<and> (case create_obj_link env64 5 steal_pending 3 0 of
        Inr s' \<Rightarrow>
          trace s' = [CloseObj 2, SysClose 5, DestroyObj 2 0 0 (- 1), OpenObj 0]
          \<and> (case heap s' 2 of None \<Rightarrow> True | Some w' \<Rightarrow> False)
          \<and> (case heap s' 0 of None \<Rightarrow> False | Some d \<Rightarrow> writer d = Some 3)
          \<and> (case heap s' 3 of None \<Rightarrow> False | Some so \<Rightarrow> readers so = [0])
      | Inl x \<Rightarrow> False)"
  by code_simp

section \<open>The precedence of the port\<close>



section \<open>Errors found outside a directive\<close>

text \<open>
  C8: every error in the file is claimed to put exactly one line
  \<open>ERROR: <file>:<line>: <message>.\<close> on standard error, after which the parser skips
  to the end of the line and goes on.  The file \<open>stray.conf\<close> holds the single line
  \<open>PORT=7777\<close>: its first token is a keyword that starts no directive, which the
  \<open>default\<close> branch of the main loop reports as an unrecognized token.  The parser skips
  the line and returns, but the line of the report is written by \<open>printf\<close>: standard
  error stays empty, and the report is on standard output.
\<close>

theorem process_server_conf_file_stray_token:
  "case process_server_conf_file ex_conf_env (parse_start (create_server_conf ''stray.conf'')) of
     Inr p' \<Rightarrow>
       stderr p' = []
       \<and> stdout p' = [''ERROR: stray.conf:1: unrecognized token '' @ [CHR 0x27] @ ''PORT''
                        @ [CHR 0x27, CHR ''.'', CHR 0x0A]]
       \<and> lex_rest (lx p') = [] \<and> port_sets p' = []
   | Inl x \<Rightarrow> False"
  by code_simp

end
